theory Spec2Isabelle
  imports Complex_Main "HOL-Library.Word"
begin

unbundle bit_operations_syntax

section \<open>Platform driver: the two button snapshots\<close>

text \<open>
  \<^verbatim>\<open>unsigned long gamepadDown = 0, gamepadDownOld = 0;\<close> (platform_driver.hpp).
  The targets of the library (the console and the desktop fallback) are LP64, where
  \<^verbatim>\<open>unsigned long\<close> has 64 bits. The enumerators of \<^verbatim>\<open>Key\<close> are single bits of
  such a mask.
\<close>

type_synonym buttons = "64 word"

record PlatformDriver =
  quitFlag :: bool
  gamepadDown :: buttons
  gamepadDownOld :: buttons

definition KEY_A :: buttons where "KEY_A = push_bit 0 1"
definition KEY_B :: buttons where "KEY_B = push_bit 1 1"
definition KEY_PLUS :: buttons where "KEY_PLUS = push_bit 8 1"
definition KEY_MINUS :: buttons where "KEY_MINUS = push_bit 9 1"
definition KEY_DLEFT :: buttons where "KEY_DLEFT = push_bit 10 1"
definition KEY_DUP :: buttons where "KEY_DUP = push_bit 11 1"
definition KEY_DRIGHT :: buttons where "KEY_DRIGHT = push_bit 12 1"
definition KEY_DDOWN :: buttons where "KEY_DDOWN = push_bit 13 1"

definition quit :: "PlatformDriver \<Rightarrow> PlatformDriver" where
  "quit d = d\<lparr>quitFlag := True\<rparr>"

definition isAnyKeyDown :: "PlatformDriver \<Rightarrow> bool" where
  "isAnyKeyDown d = (gamepadDown d > 0)"

definition haveKeyStatesChanged :: "PlatformDriver \<Rightarrow> bool" where
  "haveKeyStatesChanged d = (gamepadDown d \<noteq> gamepadDownOld d)"

definition keysDown :: "PlatformDriver \<Rightarrow> buttons" where
  "keysDown d = (NOT (gamepadDownOld d)) AND gamepadDown d"

definition keysUp :: "PlatformDriver \<Rightarrow> buttons" where
  "keysUp d = gamepadDownOld d AND (NOT (gamepadDown d))"

definition keysHeld :: "PlatformDriver \<Rightarrow> buttons" where
  "keysHeld d = gamepadDown d"

text \<open>
  The four classes of a button bit \<open>n\<close> across the two snapshots. Newly down and newly
  up are read from what the driver reports; still held and neither are read from the
  snapshots themselves.
\<close>

definition newly_down :: "PlatformDriver \<Rightarrow> nat \<Rightarrow> bool" where
  "newly_down d n = bit (keysDown d) n"

definition newly_up :: "PlatformDriver \<Rightarrow> nat \<Rightarrow> bool" where
  "newly_up d n = bit (keysUp d) n"

definition still_held :: "PlatformDriver \<Rightarrow> nat \<Rightarrow> bool" where
  "still_held d n = (bit (gamepadDownOld d) n \<and> bit (gamepadDown d) n)"

definition neither :: "PlatformDriver \<Rightarrow> nat \<Rightarrow> bool" where
  "neither d n = (\<not> bit (gamepadDownOld d) n \<and> \<not> bit (gamepadDown d) n)"

definition classes_holding :: "PlatformDriver \<Rightarrow> nat \<Rightarrow> nat" where
  "classes_holding d n =
     length (filter id [newly_down d n, still_held d n, newly_up d n, neither d n])"

section \<open>Views: the collaborator's capability set\<close>

text \<open>
  The class \<^verbatim>\<open>View\<close> is not among the sources; the application reaches it only through
  pointers and method calls. A \<^verbatim>\<open>View*\<close> is \<open>view option\<close>: \<open>None\<close> is the null
  pointer, \<open>Some v\<close> the address \<open>v\<close> of a view object.
\<close>

type_synonym view = nat

datatype FocusDirection = UP | DOWN | LEFT | RIGHT

text \<open>
  Modelled from the spec: the enumeration \<^verbatim>\<open>ViewAnimation\<close> is declared outside the
  sources; application.cpp only tests \<^verbatim>\<open>animation == ViewAnimation::FADE\<close>, and the
  spec distinguishes the cross-fade from every other kind.
\<close>

datatype ViewAnimation = FADE | SLIDE nat

text \<open>
  \<^verbatim>\<open>struct Action\<close> (actions.hpp). The listener is a \<^verbatim>\<open>std::function<bool(void)>\<close>:
  it returns a flag and may change the world \<open>'w\<close> around it.
\<close>

record 'w Action =
  key :: buttons
  hintText :: string
  available :: bool
  hidden :: bool
  actionListener :: "'w \<Rightarrow> bool \<times> 'w"

text \<open>
  Modelled from the spec: the queries the application makes of a view (has-parent and
  get-parent, the opaque per-parent user data, get-next-focus, get-default-focus,
  get-actions, is-translucent, is-hidden), as they answer during one call of the
  application. \<^verbatim>\<open>hasParent()\<close> is \<open>getParent T v \<noteq> None\<close>.
\<close>

record 'w views =
  getParent :: "view \<Rightarrow> view option"
  getParentUserData :: "view \<Rightarrow> nat"
  getNextFocus :: "view \<Rightarrow> FocusDirection \<Rightarrow> nat \<Rightarrow> view option"
  getDefaultFocus :: "view \<Rightarrow> view option"
  getActions :: "view \<Rightarrow> 'w Action list"
  isTranslucent :: "view \<Rightarrow> bool"
  isHidden :: "view \<Rightarrow> bool"

text \<open>
  The parent chain of a view, the view itself first, read with at most \<open>n\<close> steps:
  \<open>None\<close> when the root is not reached within \<open>n\<close> steps (as on a cyclic chain).
\<close>

fun chain :: "'w views \<Rightarrow> nat \<Rightarrow> view \<Rightarrow> view list option" where
  "chain T 0 v = None"
| "chain T (Suc n) v =
     (case getParent T v of
        None \<Rightarrow> Some [v]
      | Some p \<Rightarrow> (case chain T n p of None \<Rightarrow> None | Some vs \<Rightarrow> Some (v # vs)))"

section \<open>Application state\<close>

text \<open>
  The statements the application executes on its collaborators and on its own stack and
  counter, in program order. The source keeps no such log: \<open>calls\<close> is a ghost field
  that makes the order of the steps a value.
\<close>

datatype call =
    BlockInputs
  | UnblockInputs
  | PopBack
  | Delete view
  | CallerCallback nat
  | RegisterAction view string buttons bool
  | SetForceTranslucent view bool
  | SetBoundaries view
  | SetAlphaZero view
  | Invalidate view bool
  | WillAppear view bool
  | WillDisappear view bool
  | Show view ViewAnimation
  | Hide view ViewAnimation
  | OnFocusLost view
  | OnFocusGained view
  | FocusChangeEvent "view option"
  | ShakeHighlight view FocusDirection

text \<open>
  The closures handed to \<^verbatim>\<open>show\<close> and \<^verbatim>\<open>hide\<close>: the caller's own callback (opaque,
  named by a number), \<^verbatim>\<open>[]() { Application::unblockInputs(); }\<close>, the lambda of
  \<^verbatim>\<open>pushView\<close> capturing \<^verbatim>\<open>[animation, wait]\<close> and the lambda of \<^verbatim>\<open>popView\<close>
  capturing \<^verbatim>\<open>[last, animation, wait, cb]\<close>.
\<close>

datatype callback =
    CallerCb nat
  | UnblockCb
  | PushHideDone ViewAnimation bool
  | PopHideDone view ViewAnimation bool callback

datatype error = NullDereference | OutOfRange

text \<open>
  The static members of \<^verbatim>\<open>Application\<close> that the modelled functions touch. The
  vectors \<open>viewStack\<close> and \<open>focusStack\<close> grow at the end (\<^verbatim>\<open>push_back\<close>).

  Modelled from the spec: the declaration of \<^verbatim>\<open>blockInputsTokens\<close> is in
  application.hpp, which is not among the sources; the spec calls it a process-wide
  counter that must never go negative. It is an unbounded integer here.

  Modelled from the spec: \<open>pending\<close> holds the animations in flight, each with the view
  it plays on and its completion callback (the animation engine is an external
  collaborator that invokes the callback when the animation completes).
\<close>

record Application =
  currentFocus :: "view option"
  repetitionOldFocus :: "view option"
  viewStack :: "view list"
  focusStack :: "view option list"
  blockInputsTokens :: int
  pending :: "(view \<times> callback) list"
  calls :: "call list"

text \<open>
  The state after \<^verbatim>\<open>Application::init\<close>: no focus, empty vectors, input not blocked.
\<close>

definition app_init :: Application where
  "app_init =
     \<lparr>currentFocus = None, repetitionOldFocus = None, viewStack = [], focusStack = [],
      blockInputsTokens = 0, pending = [], calls = []\<rparr>"

definition emit :: "call \<Rightarrow> Application \<Rightarrow> Application" where
  "emit c s = s\<lparr>calls := calls s @ [c]\<rparr>"

definition blockInputs :: "Application \<Rightarrow> Application" where
  "blockInputs s = emit BlockInputs (s\<lparr>blockInputsTokens := blockInputsTokens s + 1\<rparr>)"

definition unblockInputs :: "Application \<Rightarrow> Application" where
  "unblockInputs s =
     emit UnblockInputs
       (if blockInputsTokens s > 0 then s\<lparr>blockInputsTokens := blockInputsTokens s - 1\<rparr>
        else s)"

text \<open>A sequence of calls of \<^verbatim>\<open>blockInputs\<close> and \<^verbatim>\<open>unblockInputs\<close>.\<close>

datatype token_op = Block | Unblock

fun token_step :: "token_op \<Rightarrow> Application \<Rightarrow> Application" where
  "token_step Block s = blockInputs s"
| "token_step Unblock s = unblockInputs s"

definition token_run :: "token_op list \<Rightarrow> Application \<Rightarrow> Application" where
  "token_run ops s = fold token_step ops s"

definition blocks :: "token_op list \<Rightarrow> int" where
  "blocks ops = int (length (filter (\<lambda>x. x = Block) ops))"

definition unblocks :: "token_op list \<Rightarrow> int" where
  "unblocks ops = int (length (filter (\<lambda>x. x = Unblock) ops))"

text \<open>
  The calls of \<^verbatim>\<open>unblockInputs\<close> in a sequence that are made while the counter, started
  at \<open>c\<close>, is not above zero: the decrements the guard drops.
\<close>

fun dropped :: "int \<Rightarrow> token_op list \<Rightarrow> int" where
  "dropped c [] = 0"
| "dropped c (Block # ops) = dropped (c + 1) ops"
| "dropped c (Unblock # ops) =
     (if c > 0 then dropped (c - 1) ops else 1 + dropped c ops)"

section \<open>Show, hide and the focus\<close>

text \<open>
  Modelled from the spec: \<^verbatim>\<open>View::show\<close> and \<^verbatim>\<open>View::hide\<close> are not among the
  sources. Called with \<^verbatim>\<open>animated = true\<close>, as everywhere in application.cpp, each
  schedules an animation against the engine and receives a completion callback.
\<close>

definition view_show :: "view \<Rightarrow> callback \<Rightarrow> ViewAnimation \<Rightarrow> Application \<Rightarrow> Application" where
  "view_show v cb animation s = (emit (Show v animation) s)\<lparr>pending := pending s @ [(v, cb)]\<rparr>"

definition view_hide :: "view \<Rightarrow> callback \<Rightarrow> ViewAnimation \<Rightarrow> Application \<Rightarrow> Application" where
  "view_hide v cb animation s = (emit (Hide v animation) s)\<lparr>pending := pending s @ [(v, cb)]\<rparr>"

definition giveFocus :: "'w views \<Rightarrow> view option \<Rightarrow> Application \<Rightarrow> Application" where
  "giveFocus T v s =
     (let oldFocus = currentFocus s;
          newFocus = (case v of None \<Rightarrow> None | Some x \<Rightarrow> getDefaultFocus T x)
      in if oldFocus \<noteq> newFocus then
           let s1 = (case oldFocus of None \<Rightarrow> s | Some old \<Rightarrow> emit (OnFocusLost old) s);
               s2 = emit (FocusChangeEvent newFocus) (s1\<lparr>currentFocus := newFocus\<rparr>)
           in (case newFocus of None \<Rightarrow> s2 | Some n \<Rightarrow> emit (OnFocusGained n) s2)
         else s)"

section \<open>The view stack\<close>

text \<open>
  \<^verbatim>\<open>Application::popView\<close>. \<^verbatim>\<open>Logger::debug\<close> evaluates
  \<^verbatim>\<open>newFocus->describe()\<close>, so a null entry on top of the focus stack is a null
  dereference.
\<close>

definition popView ::
  "'w views \<Rightarrow> ViewAnimation \<Rightarrow> callback \<Rightarrow> Application \<Rightarrow> error + Application" where
  "popView T animation cb s =
     (if length (viewStack s) \<le> 1 then Inr s
      else
        let s1 = blockInputs s;
            lastv = last (viewStack s1);
            s2 = emit (WillDisappear lastv True) s1;
            s3 = emit (SetForceTranslucent lastv True) s2;
            wait = (animation = FADE);
            s4 = view_hide lastv (PopHideDone lastv animation wait cb) animation s3;
            s5 = (if \<not> wait \<and> length (viewStack s4) > 1 then
                    let toShow = viewStack s4 ! (length (viewStack s4) - 2)
                    in view_show toShow cb animation (emit (WillAppear toShow False) s4)
                  else s4)
        in if focusStack s5 \<noteq> [] then
             (case last (focusStack s5) of
                None \<Rightarrow> Inl NullDereference
              | Some newFocus \<Rightarrow>
                  let s6 = giveFocus T (Some newFocus) s5
                  in Inr (s6\<lparr>focusStack := butlast (focusStack s6)\<rparr>))
           else Inr s5)"

text \<open>
  \<^verbatim>\<open>Application::pushView\<close>; the pushed view is a valid object. \<^verbatim>\<open>Logger::debug\<close>
  evaluates \<^verbatim>\<open>Application::currentFocus->describe()\<close> when the stack is not empty, so
  a null current focus is a null dereference there.
\<close>

definition pushView ::
  "'w views \<Rightarrow> view \<Rightarrow> ViewAnimation \<Rightarrow> Application \<Rightarrow> error + Application" where
  "pushView T v animation s =
     (let s1 = blockInputs s;
          lastv = (if viewStack s1 \<noteq> [] then Some (last (viewStack s1)) else None);
          fadeOut = (case lastv of
                       None \<Rightarrow> False
                     | Some l \<Rightarrow> \<not> isTranslucent T l \<and> \<not> isTranslucent T v);
          wait = (animation = FADE);
          s2 = emit (RegisterAction v ''Exit'' KEY_PLUS False) s1;
          s3 = emit (RegisterAction v ''FPS'' KEY_MINUS True) s2;
          s4 = (case lastv of
                  None \<Rightarrow> s3
                | Some l \<Rightarrow>
                    if fadeOut then
                      let a = emit (SetForceTranslucent v True) s3;
                          b = (if \<not> wait then view_show v UnblockCb animation a else a)
                      in view_hide l (PushHideDone animation wait) animation b
                    else s3);
          s5 = emit (SetBoundaries v) s4;
          s6 = (if \<not> fadeOut then view_show v UnblockCb animation s5
                else emit (SetAlphaZero v) s5)
      in case (if viewStack s6 \<noteq> [] then
                 (case currentFocus s6 of
                    None \<Rightarrow> Inl NullDereference
                  | Some f \<Rightarrow> Inr (s6\<lparr>focusStack := focusStack s6 @ [Some f]\<rparr>))
               else Inr s6) of
           Inl e \<Rightarrow> Inl e
         | Inr s7 \<Rightarrow>
             let s8 = emit (Invalidate v True) s7;
                 s9 = emit (WillAppear v True) s8;
                 s10 = giveFocus T (getDefaultFocus T v) s9
             in Inr (s10\<lparr>viewStack := viewStack s10 @ [v]\<rparr>))"

text \<open>
  The bodies of the closures. Reading the last element of an empty vector, or
  \<^verbatim>\<open>pop_back\<close> on one, is undefined in the source and an error here.
\<close>

fun run_cb :: "'w views \<Rightarrow> callback \<Rightarrow> Application \<Rightarrow> error + Application" where
  "run_cb T (CallerCb n) s = Inr (emit (CallerCallback n) s)"
| "run_cb T UnblockCb s = Inr (unblockInputs s)"
| "run_cb T (PushHideDone animation wait) s =
     (if viewStack s = [] then Inl OutOfRange
      else
        let newLast = last (viewStack s);
            s1 = emit (SetForceTranslucent newLast False) s
        in Inr (if wait then view_show newLast UnblockCb animation s1 else s1))"
| "run_cb T (PopHideDone lastv animation wait cb) s =
     (let s1 = emit (SetForceTranslucent lastv False) s
      in if viewStack s1 = [] then Inl OutOfRange
         else
           let s2 = emit PopBack (s1\<lparr>viewStack := butlast (viewStack s1)\<rparr>);
               s3 = emit (Delete lastv) s2
           in case (if viewStack s3 \<noteq> [] \<and> wait then
                      if isHidden T (last (viewStack s3)) then
                        Inr (view_show (last (viewStack s3)) cb animation
                               (emit (WillAppear (last (viewStack s3)) False) s3))
                      else run_cb T cb s3
                    else Inr s3) of
                Inl e \<Rightarrow> Inl e
              | Inr s4 \<Rightarrow> Inr (unblockInputs s4))"

text \<open>
  Modelled from the spec: the animation engine completes the animation in flight at
  position \<open>i\<close> and invokes its completion callback.
\<close>

definition animation_done :: "'w views \<Rightarrow> nat \<Rightarrow> Application \<Rightarrow> error + Application" where
  "animation_done T i s =
     (if i < length (pending s) then
        run_cb T (snd (pending s ! i))
          (s\<lparr>pending := take i (pending s) @ drop (Suc i) (pending s)\<rparr>)
      else Inr s)"

section \<open>Action dispatch\<close>

text \<open>
  The body of \<^verbatim>\<open>for (auto& action : hintParent->getActions())\<close> on the node \<open>v\<close>. The
  accumulator is the set \<^verbatim>\<open>consumedKeys\<close>, the world and a ghost log of the listeners
  invoked so far: the node, the action and what the listener returned.
\<close>

type_synonym 'w dispatch = "buttons set \<times> 'w \<times> (view \<times> 'w Action \<times> bool) list"

fun handleAction_node :: "view \<Rightarrow> buttons \<Rightarrow> 'w Action list \<Rightarrow> 'w dispatch \<Rightarrow> 'w dispatch" where
  "handleAction_node v button [] acc = acc"
| "handleAction_node v button (action # rest) (consumedKeys, w, fired) =
     (if key action AND button = 0 then
        handleAction_node v button rest (consumedKeys, w, fired)
      else if key action \<in> consumedKeys then
        handleAction_node v button rest (consumedKeys, w, fired)
      else if available action then
        (case actionListener action w of
           (r, w') \<Rightarrow>
             handleAction_node v button rest
               (if r then insert (key action) consumedKeys else consumedKeys, w',
                fired @ [(v, action, r)]))
      else handleAction_node v button rest (consumedKeys, w, fired))"

text \<open>\<^verbatim>\<open>while (hintParent != nullptr)\<close>: \<open>None\<close> is a walk that never ends.\<close>

partial_function (option) handleAction_walk ::
  "'w views \<Rightarrow> view option \<Rightarrow> buttons \<Rightarrow> 'w dispatch \<Rightarrow> 'w dispatch option" where
  "handleAction_walk T hintParent button acc =
     (case hintParent of
        None \<Rightarrow> Some acc
      | Some v \<Rightarrow>
          handleAction_walk T (getParent T v) button
            (handleAction_node v button (getActions T v) acc))"

definition handleAction ::
  "'w views \<Rightarrow> Application \<Rightarrow> 'w \<Rightarrow> buttons \<Rightarrow>
   (bool \<times> 'w \<times> (view \<times> 'w Action \<times> bool) list) option" where
  "handleAction T s w button =
     (case handleAction_walk T (currentFocus s) button ({}, w, []) of
        None \<Rightarrow> None
      | Some (consumedKeys, w', fired) \<Rightarrow> Some (consumedKeys \<noteq> {}, w', fired))"

text \<open>
  The parts of an entry of the log of listeners invoked: the node, the action, and what
  the listener returned.
\<close>

definition fired_view :: "view \<times> 'w Action \<times> bool \<Rightarrow> view" where
  "fired_view e = fst e"

definition fired_action :: "view \<times> 'w Action \<times> bool \<Rightarrow> 'w Action" where
  "fired_action e = fst (snd e)"

definition fired_result :: "view \<times> 'w Action \<times> bool \<Rightarrow> bool" where
  "fired_result e = snd (snd e)"

text \<open>
  Properties of a dispatch, stated on the set of consumed keys and the log. The consumed
  keys are the keys of the entries whose listener returned true; once a listener has
  returned true, no later entry has its key; the entries follow the parent chain \<open>vs\<close>
  from the focus upwards.
\<close>

definition consumed_ok :: "buttons set \<Rightarrow> (view \<times> 'w Action \<times> bool) list \<Rightarrow> bool" where
  "consumed_ok C F = (C = (\<lambda>e. key (fired_action e)) ` {e \<in> set F. fired_result e})"

definition short_circuit :: "(view \<times> 'w Action \<times> bool) list \<Rightarrow> bool" where
  "short_circuit F =
     (\<forall>p q. p < q \<and> q < length F \<and> fired_result (F ! p) \<longrightarrow>
        key (fired_action (F ! q)) \<noteq> key (fired_action (F ! p)))"

definition walk_ordered :: "view list \<Rightarrow> (view \<times> 'w Action \<times> bool) list \<Rightarrow> bool" where
  "walk_ordered vs F =
     (\<forall>p q. p < q \<and> q < length F \<longrightarrow>
        (\<exists>i j. i \<le> j \<and> j < length vs \<and> fired_view (F ! p) = vs ! i \<and> fired_view (F ! q) = vs ! j))"

text \<open>
  The order of consumption as the spec words it (ancestor first): the same loop body,
  run over the parent chain from the root down to the focus.
\<close>

definition ancestor_first_dispatch ::
  "'w views \<Rightarrow> view list \<Rightarrow> buttons \<Rightarrow> 'w \<Rightarrow> 'w dispatch" where
  "ancestor_first_dispatch T vs button w =
     fold (\<lambda>u. handleAction_node u button (getActions T u)) (rev vs) ({}, w, [])"

section \<open>Navigation\<close>

text \<open>
  \<^verbatim>\<open>while (!nextFocus)\<close> of \<^verbatim>\<open>Application::navigate\<close>, entered with the local
  \<^verbatim>\<open>currentFocus\<close> and the first answer of its parent. \<open>Some None\<close> is the walk that
  ends at the root with no candidate, \<open>None\<close> a walk that never ends.
\<close>

partial_function (option) navigate_walk ::
  "'w views \<Rightarrow> FocusDirection \<Rightarrow> view \<Rightarrow> view option \<Rightarrow> view option option" where
  "navigate_walk T direction cf nextFocus =
     (case nextFocus of
        Some n \<Rightarrow> Some (Some n)
      | None \<Rightarrow>
          (case getParent T cf of
             None \<Rightarrow> Some None
           | Some p \<Rightarrow>
               (case getParent T p of
                  None \<Rightarrow> Some None
                | Some gp \<Rightarrow>
                    navigate_walk T direction p
                      (getNextFocus T gp direction (getParentUserData T p)))))"

definition navigate :: "'w views \<Rightarrow> FocusDirection \<Rightarrow> Application \<Rightarrow> Application option" where
  "navigate T direction s =
     (case currentFocus s of
        None \<Rightarrow> Some s
      | Some cf \<Rightarrow>
          (case getParent T cf of
             None \<Rightarrow> Some s
           | Some p \<Rightarrow>
               (case navigate_walk T direction cf
                       (getNextFocus T p direction (getParentUserData T cf)) of
                  None \<Rightarrow> None
                | Some None \<Rightarrow> Some (emit (ShakeHighlight cf direction) s)
                | Some (Some n) \<Rightarrow> Some (giveFocus T (Some n) s))))"

section \<open>Gamepad dispatch\<close>

text \<open>
  \<^verbatim>\<open>Application::onGamepadButtonPressed\<close>. The result is the state, the world and the
  log of the listeners invoked; \<open>None\<close> when a walk up the parent chain never ends.
  Listeners act on the world only.
\<close>

definition onGamepadButtonPressed ::
  "'w views \<Rightarrow> buttons \<Rightarrow> bool \<Rightarrow> Application \<Rightarrow> 'w \<Rightarrow>
   (Application \<times> 'w \<times> (view \<times> 'w Action \<times> bool) list) option" where
  "onGamepadButtonPressed T button repeating s w =
     (if blockInputsTokens s \<noteq> 0 then Some (s, w, [])
      else if repeating \<and> repetitionOldFocus s = currentFocus s then Some (s, w, [])
      else
        let s1 = s\<lparr>repetitionOldFocus := currentFocus s\<rparr>
        in case handleAction T s1 w button of
             None \<Rightarrow> None
           | Some (consumed, w', fired) \<Rightarrow>
               if consumed then Some (s1, w', fired)
               else if button AND KEY_DDOWN \<noteq> 0 then
                 map_option (\<lambda>s2. (s2, w', fired)) (navigate T DOWN s1)
               else if button AND KEY_DUP \<noteq> 0 then
                 map_option (\<lambda>s2. (s2, w', fired)) (navigate T UP s1)
               else if button AND KEY_DLEFT \<noteq> 0 then
                 map_option (\<lambda>s2. (s2, w', fired)) (navigate T LEFT s1)
               else if button AND KEY_DRIGHT \<noteq> 0 then
                 map_option (\<lambda>s2. (s2, w', fired)) (navigate T RIGHT s1)
               else Some (s1, w', fired))"

text \<open>
  The gamepad part of \<^verbatim>\<open>Application::mainLoop\<close>, given the value of the static
  \<^verbatim>\<open>repeatingButtonTimer\<close>. The remainder is only taken of a timer above the delay,
  where \<^verbatim>\<open>%\<close> of C++ and \<open>mod\<close> agree.
\<close>

definition BUTTON_REPEAT_DELAY :: int where "BUTTON_REPEAT_DELAY = 15"
definition BUTTON_REPEAT_CADENCY :: int where "BUTTON_REPEAT_CADENCY = 5"

definition mainLoop_gamepad ::
  "'w views \<Rightarrow> PlatformDriver \<Rightarrow> int \<Rightarrow> Application \<Rightarrow> 'w \<Rightarrow>
   (Application \<times> 'w \<times> (view \<times> 'w Action \<times> bool) list) option" where
  "mainLoop_gamepad T d repeatingButtonTimer s w =
     (let kDown = keysDown d; kHeld = keysHeld d
      in if kHeld \<noteq> 0 then
           let repeating = (repeatingButtonTimer > BUTTON_REPEAT_DELAY \<and>
                            repeatingButtonTimer mod BUTTON_REPEAT_CADENCY = 0)
           in if kDown \<noteq> 0 \<or> repeating then onGamepadButtonPressed T kHeld repeating s w
              else Some (s, w, [])
         else Some (s, w, []))"

section \<open>The frame-rate cap\<close>

text \<open>
  A single-precision value is the rational it denotes. \<open>f32\<close> rounds a rational to the
  nearest value with a significand of 24 bits, ties to even, which is the rounding of
  every float operation and conversion of the source: \<open>normalise\<close> scales the magnitude
  by powers of two into \<open>[2^23, 2^24)\<close> (300 steps reach every magnitude between
  \<open>2^-277\<close> and \<open>2^324\<close>), \<open>round_half_even\<close> rounds it there. The exponent range,
  subnormal numbers and infinities are left out: what \<^verbatim>\<open>setMaximumFPS\<close> and
  \<^verbatim>\<open>mainLoop\<close> compute from a 32-bit \<^verbatim>\<open>fps\<close> lies between \<open>1000 / 2^34\<close> and
  \<open>2^33\<close>.
\<close>

definition round_half_even :: "rat \<Rightarrow> int" where
  "round_half_even x =
     (let f = \<lfloor>x\<rfloor>; d = x - of_int f
      in if d < 1 / 2 then f else if 1 / 2 < d then f + 1 else if even f then f else f + 1)"

fun normalise :: "nat \<Rightarrow> rat \<Rightarrow> rat \<Rightarrow> rat \<times> rat" where
  "normalise 0 m u = (m, u)"
| "normalise (Suc n) m u =
     (if m < 8388608 then normalise n (2 * m) (u / 2)
      else if 16777216 \<le> m then normalise n (m / 2) (2 * u)
      else (m, u))"

definition f32 :: "rat \<Rightarrow> rat" where
  "f32 x =
     (if x = 0 then 0
      else case normalise 300 \<bar>x\<bar> 1 of (m, u) \<Rightarrow> sgn x * of_int (round_half_even m) * u)"




section \<open>Compositions and example inputs\<close>

text \<open>\<^verbatim>\<open>pushView\<close> immediately followed by \<^verbatim>\<open>popView\<close>, with no frame in between.\<close>

definition pushView_then_popView ::
  "'w views \<Rightarrow> view \<Rightarrow> ViewAnimation \<Rightarrow> ViewAnimation \<Rightarrow> callback \<Rightarrow> Application \<Rightarrow>
   error + Application" where
  "pushView_then_popView T v animation animation' cb s =
     (case pushView T v animation s of
        Inl e \<Rightarrow> Inl e
      | Inr s1 \<Rightarrow> popView T animation' cb s1)"

text \<open>
  \<^verbatim>\<open>popView\<close> followed by the completion of the hide animation it started (the entry
  it appended to the animations in flight), and the calls that completion makes.
\<close>

definition popView_hide_done ::
  "'w views \<Rightarrow> ViewAnimation \<Rightarrow> callback \<Rightarrow> Application \<Rightarrow> error + Application" where
  "popView_hide_done T animation cb s =
     (case popView T animation cb s of
        Inl e \<Rightarrow> Inl e
      | Inr s1 \<Rightarrow> animation_done T (length (pending s)) s1)"

definition hide_completion_steps ::
  "'w views \<Rightarrow> ViewAnimation \<Rightarrow> callback \<Rightarrow> Application \<Rightarrow> call list option" where
  "hide_completion_steps T animation cb s =
     (case popView T animation cb s of
        Inl e \<Rightarrow> None
      | Inr s1 \<Rightarrow>
          (case animation_done T (length (pending s)) s1 of
             Inl e \<Rightarrow> None
           | Inr s2 \<Rightarrow> Some (drop (length (calls s1)) (calls s2))))"

text \<open>
  The steps of the hide-completion path of a cross-fade pop in the order the spec gives
  them, for a popped view \<open>lastv\<close>, the view \<open>newLast\<close> it exposes and the caller's
  callback \<open>n\<close>.
\<close>

definition spec_fade_completion :: "view \<Rightarrow> view \<Rightarrow> bool \<Rightarrow> nat \<Rightarrow> call list" where
  "spec_fade_completion lastv newLast shown n =
     [SetForceTranslucent lastv False, PopBack, Delete lastv]
     @ (if shown then [] else [WillAppear newLast False, Show newLast FADE])
     @ [CallerCallback n, UnblockInputs]"

text \<open>
  Views without parents, actions or focus candidates, each its own default focus; the
  same with a view 5 that is not focusable; a driver holding the A button over two
  polls.
\<close>

definition tree0 :: "unit views" where
  "tree0 = \<lparr>getParent = (\<lambda>v. None), getParentUserData = (\<lambda>v. 0),
     getNextFocus = (\<lambda>v d u. None), getDefaultFocus = (\<lambda>v. Some v),
     getActions = (\<lambda>v. []), isTranslucent = (\<lambda>v. False), isHidden = (\<lambda>v. False)\<rparr>"

definition tree_dead :: "unit views" where
  "tree_dead = \<lparr>getParent = (\<lambda>v. None), getParentUserData = (\<lambda>v. 0),
     getNextFocus = (\<lambda>v d u. None),
     getDefaultFocus = (\<lambda>v. if v = 5 then None else Some v),
     getActions = (\<lambda>v. []), isTranslucent = (\<lambda>v. False), isHidden = (\<lambda>v. False)\<rparr>"

definition held_A :: PlatformDriver where
  "held_A = \<lparr>quitFlag = False, gamepadDown = 1, gamepadDownOld = 1\<rparr>"

text \<open>
  A root 1 under a hidden-view query that answers true for it; a stack of two views
  with the focus on the upper one; a chain 3, 2, 1 of views with no focus candidate; a
  focused view 2 under a root 1, each with one available action on the A button whose
  listener appends its name to the world (the focused one returns \<open>r\<close>).
\<close>

definition tree_hidden :: "unit views" where
  "tree_hidden = \<lparr>getParent = (\<lambda>v. None), getParentUserData = (\<lambda>v. 0),
     getNextFocus = (\<lambda>v d u. None), getDefaultFocus = (\<lambda>v. Some v),
     getActions = (\<lambda>v. []), isTranslucent = (\<lambda>v. False), isHidden = (\<lambda>v. v = 1)\<rparr>"

definition app_two :: Application where
  "app_two = app_init\<lparr>viewStack := [1, 2], focusStack := [Some 1], currentFocus := Some 2\<rparr>"

definition tree_chain :: "unit views" where
  "tree_chain = \<lparr>getParent = (\<lambda>v. if v = 3 then Some 2 else if v = 2 then Some 1 else None),
     getParentUserData = (\<lambda>v. 0),
     getNextFocus = (\<lambda>v d u. None), getDefaultFocus = (\<lambda>v. Some v),
     getActions = (\<lambda>v. []), isTranslucent = (\<lambda>v. False), isHidden = (\<lambda>v. False)\<rparr>"

definition act :: "string \<Rightarrow> bool \<Rightarrow> string list Action" where
  "act name r =
     \<lparr>key = KEY_A, hintText = name, available = True, hidden = False,
      actionListener = (\<lambda>w. (r, w @ [name]))\<rparr>"

definition tree_two :: "bool \<Rightarrow> string list views" where
  "tree_two r =
     \<lparr>getParent = (\<lambda>v. if v = 2 then Some 1 else None), getParentUserData = (\<lambda>v. 0),
      getNextFocus = (\<lambda>v d u. None), getDefaultFocus = (\<lambda>v. Some v),
      getActions = (\<lambda>v. if v = 2 then [act ''focus'' r]
                          else if v = 1 then [act ''ancestor'' True] else []),
      isTranslucent = (\<lambda>v. False), isHidden = (\<lambda>v. False)\<rparr>"

definition app_focus2 :: Application where
  "app_focus2 = app_init\<lparr>viewStack := [1], currentFocus := Some 2\<rparr>"

text \<open>
  Views whose default focus is nested (1 gives 2, 2 gives 3); a focused view 2 and a
  view 3 under a root 1, where the root answers a move down from any child with 3 and
  view 2 holds one action on the A button; the state with the focus on 2 recorded as the
  focus of the last dispatch; a driver on which A is held and B is newly pressed.
\<close>

definition tree_nested :: "unit views" where
  "tree_nested = \<lparr>getParent = (\<lambda>v. None), getParentUserData = (\<lambda>v. 0),
     getNextFocus = (\<lambda>v d u. None),
     getDefaultFocus = (\<lambda>v. if v = 1 then Some 2 else if v = 2 then Some 3 else Some v),
     getActions = (\<lambda>v. []), isTranslucent = (\<lambda>v. False), isHidden = (\<lambda>v. False)\<rparr>"

definition tree_nav :: "string list views" where
  "tree_nav =
     \<lparr>getParent = (\<lambda>v. if v = 2 \<or> v = 3 then Some 1 else None),
      getParentUserData = (\<lambda>v. 0),
      getNextFocus = (\<lambda>v d u. if v = 1 \<and> d = DOWN then Some 3 else None),
      getDefaultFocus = (\<lambda>v. Some v),
      getActions = (\<lambda>v. if v = 2 then [act ''focus'' True] else []),
      isTranslucent = (\<lambda>v. False), isHidden = (\<lambda>v. False)\<rparr>"

definition app_rep :: Application where
  "app_rep = app_focus2\<lparr>repetitionOldFocus := Some 2\<rparr>"

definition press_B :: PlatformDriver where
  "press_B = \<lparr>quitFlag = False, gamepadDown = KEY_A OR KEY_B, gamepadDownOld = KEY_A\<rparr>"

section \<open>Theorems\<close>

text \<open>
  C5. For every pair of consecutive snapshots, \<open>keysDown\<close> is the current snapshot AND
  NOT the previous one, \<open>keysUp\<close> is the previous snapshot AND NOT the current one,
  \<open>keysHeld\<close> is the current snapshot, and every button bit lies in exactly one of the
  four classes newly down, still held, newly up, neither. The held bits are the newly
  down ones together with the still held ones.
\<close>

theorem keys_partition:
  "keysDown d = gamepadDown d AND NOT (gamepadDownOld d)
   \<and> keysUp d = gamepadDownOld d AND NOT (gamepadDown d)
   \<and> keysHeld d = gamepadDown d
   \<and> (\<forall>n. classes_holding d n = 1)
   \<and> (\<forall>n. bit (keysHeld d) n = (newly_down d n \<or> still_held d n))"
  by (auto simp: keysDown_def keysUp_def keysHeld_def classes_holding_def newly_down_def
      newly_up_def still_held_def neither_def bit_and_iff bit_not_iff and.commute
      dest: bit_imp_possible_bit)

subsection \<open>Field lemmas\<close>

lemma emit_simps [simp]:
  "currentFocus (emit c s) = currentFocus s"
  "repetitionOldFocus (emit c s) = repetitionOldFocus s"
  "viewStack (emit c s) = viewStack s"
  "focusStack (emit c s) = focusStack s"
  "blockInputsTokens (emit c s) = blockInputsTokens s"
  "pending (emit c s) = pending s"
  "calls (emit c s) = calls s @ [c]"
  by (simp_all add: emit_def)

lemma blockInputs_counter [simp]:
  "blockInputsTokens (blockInputs s) = blockInputsTokens s + 1"
  by (simp add: blockInputs_def)

lemma unblockInputs_counter [simp]:
  "blockInputsTokens (unblockInputs s) =
     (if blockInputsTokens s > 0 then blockInputsTokens s - 1 else blockInputsTokens s)"
  by (simp add: unblockInputs_def)

lemma blockInputs_simps [simp]:
  "currentFocus (blockInputs s) = currentFocus s"
  "repetitionOldFocus (blockInputs s) = repetitionOldFocus s"
  "viewStack (blockInputs s) = viewStack s"
  "focusStack (blockInputs s) = focusStack s"
  "pending (blockInputs s) = pending s"
  "calls (blockInputs s) = calls s @ [BlockInputs]"
  by (simp_all add: blockInputs_def)

lemma unblockInputs_simps [simp]:
  "currentFocus (unblockInputs s) = currentFocus s"
  "repetitionOldFocus (unblockInputs s) = repetitionOldFocus s"
  "viewStack (unblockInputs s) = viewStack s"
  "focusStack (unblockInputs s) = focusStack s"
  "pending (unblockInputs s) = pending s"
  "calls (unblockInputs s) = calls s @ [UnblockInputs]"
  by (simp_all add: unblockInputs_def)

lemma view_show_simps [simp]:
  "currentFocus (view_show v cb a s) = currentFocus s"
  "repetitionOldFocus (view_show v cb a s) = repetitionOldFocus s"
  "viewStack (view_show v cb a s) = viewStack s"
  "focusStack (view_show v cb a s) = focusStack s"
  "blockInputsTokens (view_show v cb a s) = blockInputsTokens s"
  "pending (view_show v cb a s) = pending s @ [(v, cb)]"
  "calls (view_show v cb a s) = calls s @ [Show v a]"
  by (simp_all add: view_show_def)

lemma view_hide_simps [simp]:
  "currentFocus (view_hide v cb a s) = currentFocus s"
  "repetitionOldFocus (view_hide v cb a s) = repetitionOldFocus s"
  "viewStack (view_hide v cb a s) = viewStack s"
  "focusStack (view_hide v cb a s) = focusStack s"
  "blockInputsTokens (view_hide v cb a s) = blockInputsTokens s"
  "pending (view_hide v cb a s) = pending s @ [(v, cb)]"
  "calls (view_hide v cb a s) = calls s @ [Hide v a]"
  by (simp_all add: view_hide_def)

lemma giveFocus_simps [simp]:
  "currentFocus (giveFocus T v s) = (case v of None \<Rightarrow> None | Some x \<Rightarrow> getDefaultFocus T x)"
  "repetitionOldFocus (giveFocus T v s) = repetitionOldFocus s"
  "viewStack (giveFocus T v s) = viewStack s"
  "focusStack (giveFocus T v s) = focusStack s"
  "blockInputsTokens (giveFocus T v s) = blockInputsTokens s"
  "pending (giveFocus T v s) = pending s"
  by (auto simp: giveFocus_def Let_def split: option.splits)

lemma handleAction_walk_None [simp]: "handleAction_walk T None button acc = Some acc"
  by (subst handleAction_walk.simps) simp

lemma handleAction_walk_Some [simp]:
  "handleAction_walk T (Some v) button acc =
     handleAction_walk T (getParent T v) button (handleAction_node v button (getActions T v) acc)"
  by (subst handleAction_walk.simps) simp

lemma navigate_walk_Some [simp]: "navigate_walk T d cf (Some n) = Some (Some n)"
  by (subst navigate_walk.simps) simp

lemma navigate_walk_None:
  "navigate_walk T d cf None =
     (case getParent T cf of
        None \<Rightarrow> Some None
      | Some p \<Rightarrow>
          (case getParent T p of
             None \<Rightarrow> Some None
           | Some gp \<Rightarrow> navigate_walk T d p (getNextFocus T gp d (getParentUserData T p))))"
  by (subst navigate_walk.simps) simp

subsection \<open>The input-block counter\<close>

lemma token_run_counter:
  "blockInputsTokens (token_run ops s) =
     blockInputsTokens s + blocks ops - unblocks ops + dropped (blockInputsTokens s) ops"
proof (induction ops arbitrary: s)
  case Nil
  then show ?case by (simp add: token_run_def blocks_def unblocks_def)
next
  case (Cons x ops)
  have "token_run (x # ops) s = token_run ops (token_step x s)"
    by (simp add: token_run_def)
  then show ?case
    using Cons.IH [of "token_step x s"]
    by (cases x) (simp_all add: blocks_def unblocks_def)
qed

lemma dropped_nonneg: "0 \<le> dropped c ops"
  by (induction c ops rule: dropped.induct) auto

lemma token_run_nonneg:
  "0 \<le> blockInputsTokens s \<Longrightarrow> 0 \<le> blockInputsTokens (token_run ops s)"
proof (induction ops arbitrary: s)
  case Nil
  then show ?case by (simp add: token_run_def)
next
  case (Cons x ops)
  have "0 \<le> blockInputsTokens (token_step x s)"
    using Cons.prems by (cases x) simp_all
  then show ?case
    using Cons.IH [of "token_step x s"] by (simp add: token_run_def)
qed

lemma dropped_balanced:
  "0 \<le> c \<Longrightarrow> \<forall>k\<le>length ops. unblocks (take k ops) \<le> c + blocks (take k ops) \<Longrightarrow>
   dropped c ops = 0"
proof (induction c ops rule: dropped.induct)
  case (1 c)
  then show ?case by simp
next
  case (2 c ops)
  have "\<forall>k\<le>length ops. unblocks (take k ops) \<le> (c + 1) + blocks (take k ops)"
  proof (intro allI impI)
    fix k assume "k \<le> length ops"
    then have "unblocks (take (Suc k) (Block # ops)) \<le> c + blocks (take (Suc k) (Block # ops))"
      using "2.prems"(2) by (metis Suc_le_mono length_Cons)
    then show "unblocks (take k ops) \<le> (c + 1) + blocks (take k ops)"
      by (simp add: blocks_def unblocks_def)
  qed
  then show ?case using 2 by simp
next
  case (3 c ops)
  have "unblocks (take 1 (Unblock # ops)) \<le> c + blocks (take 1 (Unblock # ops))"
    using "3.prems"(2) by (metis One_nat_def Suc_le_mono length_Cons zero_le)
  then have pos: "0 < c" by (simp add: blocks_def unblocks_def)
  have "\<forall>k\<le>length ops. unblocks (take k ops) \<le> (c - 1) + blocks (take k ops)"
  proof (intro allI impI)
    fix k assume "k \<le> length ops"
    then have "unblocks (take (Suc k) (Unblock # ops)) \<le> c + blocks (take (Suc k) (Unblock # ops))"
      using "3.prems"(2) by (metis Suc_le_mono length_Cons)
    then show "unblocks (take k ops) \<le> (c - 1) + blocks (take k ops)"
      by (simp add: blocks_def unblocks_def)
  qed
  then show ?case using 3 pos by simp
qed

lemma dropped_nested:
  "0 \<le> c \<Longrightarrow> dropped c (replicate N Block @ replicate k Unblock) = max 0 (int k - int N - c)"
proof (induction N arbitrary: c)
  case 0
  then show ?case
  proof (induction k arbitrary: c)
    case 0
    then show ?case by simp
  next
    case (Suc k)
    then show ?case by (cases "c > 0") (auto simp: max_def)
  qed
next
  case (Suc N)
  then show ?case by (auto simp: max_def)
qed

lemma blocked_dispatch:
  "blockInputsTokens s \<noteq> 0 \<Longrightarrow> onGamepadButtonPressed T button repeating s w = Some (s, w, [])"
  by (simp add: onGamepadButtonPressed_def)

text \<open>
  C3, as amended. Started at zero, the counter is never negative, and after any sequence
  of \<^verbatim>\<open>blockInputs\<close> and \<^verbatim>\<open>unblockInputs\<close> calls it is the number of blocks minus the
  number of unblocks plus the number of unblocks made while it was zero (those leave it
  at zero). It is blocks minus unblocks whenever no prefix of the sequence has more
  unblocks than blocks. After \<open>N\<close> blocks and \<open>k\<close> unblocks it is \<open>N - k\<close>, or zero from
  the \<open>N\<close>th unblock on: it is zero exactly when \<open>N \<le> k\<close>, and an \<open>(N+1)\<close>th unblock
  leaves it at zero. While it is not
  zero, \<^verbatim>\<open>onGamepadButtonPressed\<close> returns at once: no listener is invoked and the state
  is unchanged.
\<close>

theorem input_block_counter:
  "blockInputsTokens s = 0 \<Longrightarrow>
     0 \<le> blockInputsTokens (token_run ops s)
   \<and> blockInputsTokens (token_run ops s) = blocks ops - unblocks ops + dropped 0 ops
   \<and> ((\<forall>k\<le>length ops. unblocks (take k ops) \<le> blocks (take k ops)) \<longrightarrow>
          blockInputsTokens (token_run ops s) = blocks ops - unblocks ops)
   \<and> blockInputsTokens (token_run (replicate N Block @ replicate k Unblock) s) =
         max 0 (int N - int k)
   \<and> (blockInputsTokens (token_run (replicate N Block @ replicate k Unblock) s) = 0) = (N \<le> k)
   \<and> (blockInputsTokens (token_run ops s) \<noteq> 0 \<longrightarrow>
          onGamepadButtonPressed T button repeating (token_run ops s) w =
            Some (token_run ops s, w, []))"
proof -
  assume z: "blockInputsTokens s = 0"
  have a: "0 \<le> blockInputsTokens (token_run ops s)"
    using z by (simp add: token_run_nonneg)
  have b: "blockInputsTokens (token_run ops s) = blocks ops - unblocks ops + dropped 0 ops"
    using z by (simp add: token_run_counter)
  have c: "(\<forall>k\<le>length ops. unblocks (take k ops) \<le> blocks (take k ops)) \<longrightarrow>
          blockInputsTokens (token_run ops s) = blocks ops - unblocks ops"
    using b dropped_balanced [of 0 ops] by simp
  have d: "blockInputsTokens (token_run (replicate N Block @ replicate k Unblock) s) =
         max 0 (int N - int k)"
    using z by (simp add: token_run_counter dropped_nested blocks_def unblocks_def max_def)
  have e: "(blockInputsTokens (token_run (replicate N Block @ replicate k Unblock) s) = 0)
      = (N \<le> k)"
    unfolding d by (simp add: max_def)
  show ?thesis using a b c d e by (simp add: blocked_dispatch)
qed

theorem input_block_counter_witness:
  "blockInputsTokens app_init = 0
   \<and> blockInputsTokens (token_run [Block, Block, Unblock] app_init) = 1
   \<and> list_all (\<lambda>k. unblocks (take k [Block, Block, Unblock]) \<le> blocks (take k [Block, Block, Unblock])) [0, 1, 2, 3]
   \<and> blockInputsTokens (token_run (replicate 2 Block @ replicate 3 Unblock) app_init) = 0
   \<and> onGamepadButtonPressed tree0 KEY_DDOWN False (token_run [Block, Block, Unblock] app_init) ()
        = Some (token_run [Block, Block, Unblock] app_init, (), [])"
  using input_block_counter [of app_init "[Block, Block, Unblock]" 2 3 tree0 KEY_DDOWN False "()"]
  by (simp add: app_init_def blocks_def unblocks_def)

text \<open>
  The claim as written fails after an unblock at zero followed by a block: the counter
  is 1, blocks minus unblocks is 0.
\<close>

theorem input_block_counter_counterexample:
  "blockInputsTokens (token_run [Unblock, Block] app_init)
     \<noteq> max 0 (blocks [Unblock, Block] - unblocks [Unblock, Block])"
  by (simp add: token_run_def app_init_def blocks_def unblocks_def)

subsection \<open>The view stack and the focus\<close>

text \<open>
  C4. When the view stack holds one view, \<^verbatim>\<open>popView\<close> returns the state it was given:
  the view stack, the current focus, the focus stack and the input-block counter (and
  every other field) are unchanged.
\<close>

theorem popView_root_noop:
  "length (viewStack s) = 1 \<Longrightarrow> popView T animation cb s = Inr s"
  by (simp add: popView_def)

theorem popView_root_noop_witness:
  "length (viewStack (app_init\<lparr>viewStack := [7], currentFocus := Some 7\<rparr>)) = 1
   \<and> popView tree0 FADE (CallerCb 0) (app_init\<lparr>viewStack := [7], currentFocus := Some 7\<rparr>)
       = Inr (app_init\<lparr>viewStack := [7], currentFocus := Some 7\<rparr>)"
  using popView_root_noop [of "app_init\<lparr>viewStack := [7], currentFocus := Some 7\<rparr>" tree0 FADE "CallerCb 0"]
  by simp

lemma pushView_fields:
  assumes "viewStack s \<noteq> []" and "currentFocus s = Some f"
  shows "\<exists>s1. pushView T v animation s = Inr s1
           \<and> viewStack s1 = viewStack s @ [v]
           \<and> focusStack s1 = focusStack s @ [Some f]"
  using assms by (simp add: pushView_def Let_def)

lemma popView_fields:
  assumes "1 < length (viewStack s)" and "focusStack s = fs @ [Some f]"
  shows "\<exists>s2. popView T animation cb s = Inr s2
           \<and> focusStack s2 = fs
           \<and> currentFocus s2 = getDefaultFocus T f"
  using assms by (simp add: popView_def Let_def)

lemma pushView_empty:
  assumes "viewStack s = []"
  shows "\<exists>s1. pushView T v animation s = Inr s1
           \<and> viewStack s1 = [v]
           \<and> focusStack s1 = focusStack s
           \<and> currentFocus s1 =
                (case getDefaultFocus T v of None \<Rightarrow> None | Some x \<Rightarrow> getDefaultFocus T x)"
  using assms by (simp add: pushView_def Let_def)

lemma pushView_null_focus:
  assumes "viewStack s \<noteq> []" "currentFocus s = None"
  shows "pushView T v animation s = Inl NullDereference"
  using assms by (simp add: pushView_def Let_def)

text \<open>
  C2, as amended. \<^verbatim>\<open>pushView\<close> fails only on a view stack that is not empty with no
  node in focus. Whenever it returns, \<^verbatim>\<open>pushView\<close> immediately followed by
  \<^verbatim>\<open>popView\<close> returns too and leaves the focus stack, hence its size, as it was before
  the push. On a view stack that is not empty, with the focus on a node \<open>f\<close>, the focus
  afterwards is the default focus of \<open>f\<close>: it is \<open>f\<close> exactly when \<open>f\<close> is its own default
  focus. On an empty view stack the pushed view becomes the root, \<^verbatim>\<open>popView\<close> does
  nothing, and the focus is the default focus of the pushed view's default focus.
\<close>

theorem push_pop_restores_focus:
  "(viewStack s \<noteq> [] \<and> currentFocus s = None \<longrightarrow>
      pushView T v animation s = Inl NullDereference)
   \<and> (viewStack s = [] \<or> currentFocus s \<noteq> None \<longrightarrow>
        (\<exists>s2. pushView_then_popView T v animation animation' cb s = Inr s2
           \<and> focusStack s2 = focusStack s
           \<and> length (focusStack s2) = length (focusStack s)))
   \<and> (viewStack s \<noteq> [] \<and> currentFocus s = Some f \<longrightarrow>
        (\<exists>s2. pushView_then_popView T v animation animation' cb s = Inr s2
           \<and> currentFocus s2 = getDefaultFocus T f
           \<and> (currentFocus s2 = Some f) = (getDefaultFocus T f = Some f)))
   \<and> (viewStack s = [] \<longrightarrow>
        (\<exists>s1. pushView T v animation s = Inr s1
           \<and> pushView_then_popView T v animation animation' cb s = Inr s1
           \<and> viewStack s1 = [v]
           \<and> currentFocus s1 =
                (case getDefaultFocus T v of None \<Rightarrow> None | Some x \<Rightarrow> getDefaultFocus T x)))"
proof -
  have empty: "viewStack s = [] \<longrightarrow>
        (\<exists>s1. pushView T v animation s = Inr s1
           \<and> pushView_then_popView T v animation animation' cb s = Inr s1
           \<and> viewStack s1 = [v] \<and> focusStack s1 = focusStack s
           \<and> currentFocus s1 =
                (case getDefaultFocus T v of None \<Rightarrow> None | Some x \<Rightarrow> getDefaultFocus T x))"
  proof
    assume e: "viewStack s = []"
    obtain s1 where s1: "pushView T v animation s = Inr s1" "viewStack s1 = [v]"
      "focusStack s1 = focusStack s"
      "currentFocus s1 =
         (case getDefaultFocus T v of None \<Rightarrow> None | Some x \<Rightarrow> getDefaultFocus T x)"
      using pushView_empty [OF e] by blast
    have "popView T animation' cb s1 = Inr s1" using s1(2) by (simp add: popView_def)
    then have "pushView_then_popView T v animation animation' cb s = Inr s1"
      using s1(1) by (simp add: pushView_then_popView_def)
    then show "\<exists>s1. pushView T v animation s = Inr s1
           \<and> pushView_then_popView T v animation animation' cb s = Inr s1
           \<and> viewStack s1 = [v] \<and> focusStack s1 = focusStack s
           \<and> currentFocus s1 =
                (case getDefaultFocus T v of None \<Rightarrow> None | Some x \<Rightarrow> getDefaultFocus T x)"
      using s1 by blast
  qed
  have focused: "\<And>g. viewStack s \<noteq> [] \<Longrightarrow> currentFocus s = Some g \<Longrightarrow>
        (\<exists>s2. pushView_then_popView T v animation animation' cb s = Inr s2
           \<and> focusStack s2 = focusStack s \<and> currentFocus s2 = getDefaultFocus T g)"
  proof -
    fix g assume ne: "viewStack s \<noteq> []" and g: "currentFocus s = Some g"
    obtain s1 where s1: "pushView T v animation s = Inr s1"
      "viewStack s1 = viewStack s @ [v]" "focusStack s1 = focusStack s @ [Some g]"
      using pushView_fields [OF ne g] by blast
    have "1 < length (viewStack s1)"
      using ne s1(2) by (cases "viewStack s") simp_all
    then obtain s2 where s2: "popView T animation' cb s1 = Inr s2"
      "focusStack s2 = focusStack s" "currentFocus s2 = getDefaultFocus T g"
      using popView_fields [OF _ s1(3)] by blast
    show "\<exists>s2. pushView_then_popView T v animation animation' cb s = Inr s2
           \<and> focusStack s2 = focusStack s \<and> currentFocus s2 = getDefaultFocus T g"
      using s1(1) s2 by (simp add: pushView_then_popView_def)
  qed
  have a: "viewStack s \<noteq> [] \<and> currentFocus s = None \<longrightarrow>
      pushView T v animation s = Inl NullDereference"
    using pushView_null_focus by blast
  have b: "viewStack s = [] \<or> currentFocus s \<noteq> None \<longrightarrow>
        (\<exists>s2. pushView_then_popView T v animation animation' cb s = Inr s2
           \<and> focusStack s2 = focusStack s
           \<and> length (focusStack s2) = length (focusStack s))"
  proof (cases "viewStack s = []")
    case True
    then show ?thesis using empty by auto
  next
    case False
    show ?thesis
    proof
      assume "viewStack s = [] \<or> currentFocus s \<noteq> None"
      then obtain g where "currentFocus s = Some g" using False by auto
      from focused [OF False this] show "\<exists>s2. pushView_then_popView T v animation animation' cb s = Inr s2
           \<and> focusStack s2 = focusStack s
           \<and> length (focusStack s2) = length (focusStack s)" by auto
    qed
  qed
  have c: "viewStack s \<noteq> [] \<and> currentFocus s = Some f \<longrightarrow>
        (\<exists>s2. pushView_then_popView T v animation animation' cb s = Inr s2
           \<and> currentFocus s2 = getDefaultFocus T f
           \<and> (currentFocus s2 = Some f) = (getDefaultFocus T f = Some f))"
  proof
    assume "viewStack s \<noteq> [] \<and> currentFocus s = Some f"
    then have "viewStack s \<noteq> []" "currentFocus s = Some f" by simp_all
    from focused [OF this] show "\<exists>s2. pushView_then_popView T v animation animation' cb s = Inr s2
           \<and> currentFocus s2 = getDefaultFocus T f
           \<and> (currentFocus s2 = Some f) = (getDefaultFocus T f = Some f)" by auto
  qed
  have d: "viewStack s = [] \<longrightarrow>
        (\<exists>s1. pushView T v animation s = Inr s1
           \<and> pushView_then_popView T v animation animation' cb s = Inr s1
           \<and> viewStack s1 = [v]
           \<and> currentFocus s1 =
                (case getDefaultFocus T v of None \<Rightarrow> None | Some x \<Rightarrow> getDefaultFocus T x))"
    using empty by blast
  show ?thesis using a b c d by blast
qed

theorem push_pop_restores_focus_witness:
  "viewStack (app_init\<lparr>viewStack := [7], currentFocus := Some 1\<rparr>) \<noteq> []
   \<and> currentFocus (app_init\<lparr>viewStack := [7], currentFocus := Some 1\<rparr>) = Some 1
   \<and> map_sum id currentFocus
        (pushView_then_popView tree_nested 9 FADE FADE (CallerCb 0)
           (app_init\<lparr>viewStack := [7], currentFocus := Some 1\<rparr>)) = Inr (Some 2)
   \<and> map_sum id currentFocus
        (pushView_then_popView tree0 9 FADE FADE (CallerCb 0)
           (app_init\<lparr>viewStack := [7], currentFocus := Some 1\<rparr>)) = Inr (Some 1)
   \<and> map_sum id focusStack
        (pushView_then_popView tree_nested 9 FADE FADE (CallerCb 0)
           (app_init\<lparr>viewStack := [7], currentFocus := Some 1\<rparr>)) = Inr []
   \<and> viewStack app_init = []
   \<and> map_sum id currentFocus
        (pushView_then_popView tree_nested 1 FADE FADE (CallerCb 0) app_init) = Inr (Some 3)
   \<and> map_sum id viewStack
        (pushView_then_popView tree_nested 1 FADE FADE (CallerCb 0) app_init) = Inr [1]
   \<and> pushView tree0 9 FADE (app_init\<lparr>viewStack := [7]\<rparr>) = Inl NullDereference"
  using push_pop_restores_focus [of "app_init\<lparr>viewStack := [7], currentFocus := Some 1\<rparr>"
      tree_nested 9 FADE FADE "CallerCb 0" 1]
    push_pop_restores_focus [of "app_init\<lparr>viewStack := [7], currentFocus := Some 1\<rparr>"
      tree0 9 FADE FADE "CallerCb 0" 1]
    push_pop_restores_focus [of app_init tree_nested 1 FADE FADE "CallerCb 0" 1]
    push_pop_restores_focus [of "app_init\<lparr>viewStack := [7]\<rparr>" tree0 9 FADE FADE "CallerCb 0" 1]
  by (auto simp: tree0_def tree_nested_def app_init_def)

text \<open>
  The claim as written fails on the empty view stack: the pushed view becomes the root,
  \<^verbatim>\<open>popView\<close> does nothing and the focus stays on the pushed view. It also fails when the
  node that held the focus is not its own default focus: \<^verbatim>\<open>popView\<close> gives the focus to
  the default focus of the saved node.
\<close>

theorem push_pop_restores_focus_counterexample:
  "currentFocus app_init = None
   \<and> map_sum id currentFocus
        (pushView_then_popView tree0 1 FADE FADE (CallerCb 0) app_init) = Inr (Some 1)
   \<and> currentFocus (app_init\<lparr>viewStack := [1], currentFocus := Some 5\<rparr>) = Some 5
   \<and> map_sum id currentFocus
        (pushView_then_popView tree_dead 2 FADE FADE (CallerCb 0)
           (app_init\<lparr>viewStack := [1], currentFocus := Some 5\<rparr>)) = Inr None"
  by (simp add: pushView_then_popView_def pushView_def popView_def Let_def tree0_def
      tree_dead_def app_init_def)

subsection \<open>The hide-completion path of a cross-fade pop\<close>

lemma popView_fade_fields:
  assumes "2 \<le> length (viewStack s)"
    and "focusStack s \<noteq> [] \<longrightarrow> last (focusStack s) \<noteq> None"
  shows "\<exists>s1. popView T FADE cb s = Inr s1
           \<and> viewStack s1 = viewStack s
           \<and> pending s1 = pending s @ [(last (viewStack s), PopHideDone (last (viewStack s)) FADE True cb)]"
  using assms by (auto simp: popView_def Let_def split: option.splits)

lemma run_cb_pop_fade:
  assumes "2 \<le> length (viewStack s)"
  shows "\<exists>s2. run_cb T (PopHideDone lastv FADE True (CallerCb n)) s = Inr s2
     \<and> calls s2 = calls s @ [SetForceTranslucent lastv False, PopBack, Delete lastv]
          @ (if isHidden T (last (butlast (viewStack s)))
             then [WillAppear (last (butlast (viewStack s))) False,
                   Show (last (butlast (viewStack s))) FADE, UnblockInputs]
             else [CallerCallback n, UnblockInputs])
     \<and> pending s2 = pending s
          @ (if isHidden T (last (butlast (viewStack s)))
             then [(last (butlast (viewStack s)), CallerCb n)] else [])"
proof -
  have ne: "viewStack s \<noteq> []" "butlast (viewStack s) \<noteq> []"
    using assms by (cases "viewStack s"; cases "tl (viewStack s)"; simp)+
  then show ?thesis by (simp add: Let_def)
qed

text \<open>
  The hide-completion path of a cross-fade pop on a stack of at least two views, for
  every state: the calls it makes, in order, and what is left in flight.
\<close>

lemma popView_fade_completion:
  assumes "2 \<le> length (viewStack s)"
    and "focusStack s \<noteq> [] \<longrightarrow> last (focusStack s) \<noteq> None"
  shows "hide_completion_steps T FADE (CallerCb n) s =
           Some ([SetForceTranslucent (last (viewStack s)) False, PopBack, Delete (last (viewStack s))]
                 @ (if isHidden T (last (butlast (viewStack s)))
                    then [WillAppear (last (butlast (viewStack s))) False,
                          Show (last (butlast (viewStack s))) FADE, UnblockInputs]
                    else [CallerCallback n, UnblockInputs]))
         \<and> (isHidden T (last (butlast (viewStack s))) \<longrightarrow>
              (\<exists>s2 s3. popView_hide_done T FADE (CallerCb n) s = Inr s2
                 \<and> pending s2 = pending s @ [(last (butlast (viewStack s)), CallerCb n)]
                 \<and> animation_done T (length (pending s)) s2 = Inr s3
                 \<and> calls s3 = calls s2 @ [CallerCallback n]))"
proof -
  let ?l = "last (viewStack s)"
  obtain s1 where s1: "popView T FADE (CallerCb n) s = Inr s1" "viewStack s1 = viewStack s"
    "pending s1 = pending s @ [(?l, PopHideDone ?l FADE True (CallerCb n))]"
    using popView_fade_fields [OF assms] by blast
  let ?s1' = "s1\<lparr>pending := pending s\<rparr>"
  have done1: "animation_done T (length (pending s)) s1
      = run_cb T (PopHideDone ?l FADE True (CallerCb n)) ?s1'"
    by (simp add: animation_done_def s1(3))
  have "2 \<le> length (viewStack ?s1')" using assms(1) s1(2) by simp
  from run_cb_pop_fade [OF this, of T ?l n]
  obtain s2 where s2: "run_cb T (PopHideDone ?l FADE True (CallerCb n)) ?s1' = Inr s2"
    "calls s2 = calls s1 @ [SetForceTranslucent ?l False, PopBack, Delete ?l]
          @ (if isHidden T (last (butlast (viewStack s)))
             then [WillAppear (last (butlast (viewStack s))) False,
                   Show (last (butlast (viewStack s))) FADE, UnblockInputs]
             else [CallerCallback n, UnblockInputs])"
    "pending s2 = pending s
          @ (if isHidden T (last (butlast (viewStack s)))
             then [(last (butlast (viewStack s)), CallerCb n)] else [])"
    using s1(2) by auto
  have steps: "hide_completion_steps T FADE (CallerCb n) s =
           Some ([SetForceTranslucent ?l False, PopBack, Delete ?l]
                 @ (if isHidden T (last (butlast (viewStack s)))
                    then [WillAppear (last (butlast (viewStack s))) False,
                          Show (last (butlast (viewStack s))) FADE, UnblockInputs]
                    else [CallerCallback n, UnblockInputs]))"
    by (simp add: hide_completion_steps_def s1(1) done1 s2(1) s2(2) del: run_cb.simps)
  have later: "isHidden T (last (butlast (viewStack s))) \<longrightarrow>
              (\<exists>s2 s3. popView_hide_done T FADE (CallerCb n) s = Inr s2
                 \<and> pending s2 = pending s @ [(last (butlast (viewStack s)), CallerCb n)]
                 \<and> animation_done T (length (pending s)) s2 = Inr s3
                 \<and> calls s3 = calls s2 @ [CallerCallback n])"
  proof
    assume h: "isHidden T (last (butlast (viewStack s)))"
    have a: "popView_hide_done T FADE (CallerCb n) s = Inr s2"
      by (simp add: popView_hide_done_def s1(1) done1 s2(1) del: run_cb.simps)
    have b: "pending s2 = pending s @ [(last (butlast (viewStack s)), CallerCb n)]"
      using h s2(3) by simp
    have c: "animation_done T (length (pending s)) s2
        = Inr (emit (CallerCallback n) (s2\<lparr>pending := pending s\<rparr>))"
      by (simp add: animation_done_def b)
    show "\<exists>s2 s3. popView_hide_done T FADE (CallerCb n) s = Inr s2
                 \<and> pending s2 = pending s @ [(last (butlast (viewStack s)), CallerCb n)]
                 \<and> animation_done T (length (pending s)) s2 = Inr s3
                 \<and> calls s3 = calls s2 @ [CallerCallback n]"
      using a b c by simp
  qed
  show ?thesis using steps later by simp
qed

text \<open>
  C7. On a stack of two views whose lower view is hidden, the hide-completion path of a
  cross-fade pop clears the popped view's force-translucent flag, removes the view from
  the stack and destroys it, notifies the exposed view and starts its show animation,
  and unblocks input at once: the counter is back at zero while the caller's callback
  is still in flight with the show animation. The spec's order (the show animation, then
  the caller's callback, then the unblocking of input) is not the order of these calls.
\<close>

theorem popView_fade_unblocks_early:
  "hide_completion_steps tree_hidden FADE (CallerCb 0) app_two
     = Some [SetForceTranslucent 2 False, PopBack, Delete 2, WillAppear 1 False, Show 1 FADE,
             UnblockInputs]
   \<and> hide_completion_steps tree_hidden FADE (CallerCb 0) app_two
       \<noteq> Some (spec_fade_completion 2 1 False 0)
   \<and> map_sum id blockInputsTokens (popView_hide_done tree_hidden FADE (CallerCb 0) app_two)
       = Inr 0
   \<and> map_sum id pending (popView_hide_done tree_hidden FADE (CallerCb 0) app_two)
       = Inr [(1, CallerCb 0)]"
  by (simp add: hide_completion_steps_def popView_hide_done_def popView_def animation_done_def
      Let_def spec_fade_completion_def app_two_def app_init_def tree_hidden_def giveFocus_def)

subsection \<open>Parent chains\<close>

lemma chain_Some_cases:
  assumes "chain T n v = Some vs"
  obtains m where "n = Suc m" "getParent T v = None" "vs = [v]"
  | m p vs' where "n = Suc m" "getParent T v = Some p" "chain T m p = Some vs'" "vs = v # vs'"
  using assms by (cases n) (auto split: option.splits)

lemma chain_hd: "chain T n v = Some vs \<Longrightarrow> vs \<noteq> [] \<and> hd vs = v"
  by (erule chain_Some_cases) auto

lemma chain_unique:
  "chain T n v = Some vs \<Longrightarrow> chain T m v = Some us \<Longrightarrow> us = vs"
proof (induction n arbitrary: m v vs us)
  case 0
  then show ?case by simp
next
  case (Suc n)
  from Suc.prems(1) show ?case
  proof (cases rule: chain_Some_cases)
    case (1 k)
    then show ?thesis using Suc.prems(2) by (cases m) simp_all
  next
    case (2 k p vs')
    then have c: "chain T n p = Some vs'" by simp
    obtain m' us' where "m = Suc m'" "chain T m' p = Some us'" "us = v # us'"
      using Suc.prems(2) 2(2) by (cases m) (auto split: option.splits)
    then show ?thesis using Suc.IH [OF c] 2(4) by simp
  qed
qed

lemma chain_member:
  "chain T n v = Some vs \<Longrightarrow> u \<in> set vs \<Longrightarrow>
   \<exists>m us. chain T m u = Some us \<and> length us \<le> length vs"
proof (induction n arbitrary: v vs)
  case 0
  then show ?case by simp
next
  case (Suc n)
  from Suc.prems(1) show ?case
  proof (cases rule: chain_Some_cases)
    case (1 k)
    then have "u = v" using Suc.prems(2) by simp
    then show ?thesis using Suc.prems(1) by blast
  next
    case (2 k p vs')
    show ?thesis
    proof (cases "u = v")
      case True
      then show ?thesis using Suc.prems(1) by blast
    next
      case False
      then have "u \<in> set vs'" using Suc.prems(2) 2(4) by simp
      moreover have "chain T n p = Some vs'" using 2 by simp
      ultimately obtain m us where "chain T m u = Some us" "length us \<le> length vs'"
        using Suc.IH by blast
      then show ?thesis using 2(4) by (metis le_Suc_eq length_Cons)
    qed
  qed
qed

lemma chain_distinct: "chain T n v = Some vs \<Longrightarrow> distinct vs"
proof (induction n arbitrary: v vs)
  case 0
  then show ?case by simp
next
  case (Suc n)
  from Suc.prems show ?case
  proof (cases rule: chain_Some_cases)
    case (1 k)
    then show ?thesis by simp
  next
    case (2 k p vs')
    then have c: "chain T n p = Some vs'" by simp
    have "v \<notin> set vs'"
    proof
      assume "v \<in> set vs'"
      then obtain m us where us: "chain T m v = Some us" "length us \<le> length vs'"
        using chain_member [OF c] by blast
      have "us = vs" using chain_unique [OF Suc.prems us(1)] .
      then show False using us(2) 2(4) by simp
    qed
    then show ?thesis using Suc.IH [OF c] 2(4) by simp
  qed
qed

subsection \<open>Navigation\<close>

lemma navigate_walk_dead:
  "chain T n cf = Some vs \<Longrightarrow>
   (\<forall>i. 1 \<le> i \<longrightarrow> Suc i < length vs \<longrightarrow>
      getNextFocus T (vs ! Suc i) d (getParentUserData T (vs ! i)) = None) \<Longrightarrow>
   navigate_walk T d cf None = Some None"
proof (induction n arbitrary: cf vs)
  case 0
  then show ?case by simp
next
  case (Suc n)
  from Suc.prems(1) show ?case
  proof (cases rule: chain_Some_cases)
    case (1 m)
    then show ?thesis by (simp add: navigate_walk_None)
  next
    case (2 m p vs')
    then have m: "m = n" by simp
    from 2(3) show ?thesis
    proof (cases rule: chain_Some_cases)
      case (1 k)
      then show ?thesis using 2 by (simp add: navigate_walk_None)
    next
      case inner: (2 k gp vs'')
      have vs: "vs = cf # p # vs''" using 2(4) inner(4) by simp
      have gp: "vs'' \<noteq> [] \<and> hd vs'' = gp" using chain_hd [OF inner(3)] .
      then have "vs ! Suc 1 = gp" "vs ! 1 = p" "Suc 1 < length vs"
        using vs by (cases vs''; simp)+
      then have none: "getNextFocus T gp d (getParentUserData T p) = None"
        using Suc.prems(2) by (metis le_refl)
      have shifted: "\<forall>i. 1 \<le> i \<longrightarrow> Suc i < length vs' \<longrightarrow>
          getNextFocus T (vs' ! Suc i) d (getParentUserData T (vs' ! i)) = None"
      proof (intro allI impI)
        fix i assume "1 \<le> i" "Suc i < length vs'"
        then have "1 \<le> Suc i" "Suc (Suc i) < length vs" using 2(4) by simp_all
        then have "getNextFocus T (vs ! Suc (Suc i)) d (getParentUserData T (vs ! Suc i)) = None"
          using Suc.prems(2) by blast
        then show "getNextFocus T (vs' ! Suc i) d (getParentUserData T (vs' ! i)) = None"
          using 2(4) by simp
      qed
      have "navigate_walk T d p None = Some None"
        using Suc.IH [of p vs'] 2(3) m shifted by simp
      then show ?thesis using 2(2) inner(2) none by (simp add: navigate_walk_None)
    qed
  qed
qed

lemma navigate_walk_found:
  "chain T n cf = Some vs \<Longrightarrow> navigate_walk T d cf None = Some (Some x) \<Longrightarrow>
   \<exists>i. 1 \<le> i \<and> Suc i < length vs \<and>
       getNextFocus T (vs ! Suc i) d (getParentUserData T (vs ! i)) = Some x"
proof (induction n arbitrary: cf vs)
  case 0
  then show ?case by simp
next
  case (Suc n)
  from Suc.prems(1) show ?case
  proof (cases rule: chain_Some_cases)
    case (1 m)
    then show ?thesis using Suc.prems(2) by (simp add: navigate_walk_None)
  next
    case (2 m p vs')
    then have m: "m = n" by simp
    from 2(3) show ?thesis
    proof (cases rule: chain_Some_cases)
      case (1 k)
      then show ?thesis using 2 Suc.prems(2) by (simp add: navigate_walk_None)
    next
      case inner: (2 k gp vs'')
      have vs: "vs = cf # p # vs''" using 2(4) inner(4) by simp
      have gp: "vs'' \<noteq> [] \<and> hd vs'' = gp" using chain_hd [OF inner(3)] .
      then have idx: "vs ! Suc 1 = gp" "vs ! 1 = p" "Suc 1 < length vs"
        using vs by (cases vs''; simp)+
      have step: "navigate_walk T d p (getNextFocus T gp d (getParentUserData T p)) = Some (Some x)"
        using Suc.prems(2) 2(2) inner(2) by (simp add: navigate_walk_None)
      show ?thesis
      proof (cases "getNextFocus T gp d (getParentUserData T p)")
        case None
        then have "navigate_walk T d p None = Some (Some x)" using step by simp
        from Suc.IH [of p vs'] 2(3) m this
        obtain i where i: "1 \<le> i" "Suc i < length vs'"
          "getNextFocus T (vs' ! Suc i) d (getParentUserData T (vs' ! i)) = Some x"
          by auto
        then have "1 \<le> Suc i \<and> Suc (Suc i) < length vs \<and>
            getNextFocus T (vs ! Suc (Suc i)) d (getParentUserData T (vs ! Suc i)) = Some x"
          using 2(4) by simp
        then show ?thesis by blast
      next
        case (Some y)
        then have "y = x" using step by simp
        then have "getNextFocus T (vs ! Suc 1) d (getParentUserData T (vs ! 1)) = Some x"
          using Some idx by simp
        then show ?thesis using idx(3) by (metis le_refl)
      qed
    qed
  qed
qed

lemma navigate_walk_returns:
  "chain T n cf = Some vs \<Longrightarrow> \<exists>r. navigate_walk T d cf nf = Some r"
proof (induction n arbitrary: cf vs nf)
  case 0
  then show ?case by simp
next
  case (Suc n)
  show ?case
  proof (cases nf)
    case (Some x)
    then show ?thesis by simp
  next
    case None
    from Suc.prems(1) show ?thesis
    proof (cases rule: chain_Some_cases)
      case (1 m)
      then show ?thesis using None by (simp add: navigate_walk_None)
    next
      case (2 m p vs')
      then have "chain T n p = Some vs'" by simp
      from Suc.IH [OF this] show ?thesis
        using None 2(2) by (simp add: navigate_walk_None split: option.splits)
    qed
  qed
qed

text \<open>
  C6. \<^verbatim>\<open>navigate\<close> is a no-op when there is no current focus or the current focus has
  no parent. When the parent chain of the focus is finite and no node on it answers
  \<^verbatim>\<open>getNextFocus\<close> with a candidate, the call returns, the focused node is asked to shake
  in the direction, and the focus is unchanged. On a finite parent chain the call always
  returns, and it changes the focus only if some node on the chain gave a candidate.
\<close>

theorem navigate_dead_end:
  "(currentFocus s = None \<longrightarrow> navigate T d s = Some s)
   \<and> (currentFocus s = Some cf \<and> getParent T cf = None \<longrightarrow> navigate T d s = Some s)
   \<and> (currentFocus s = Some cf \<and> chain T n cf = Some vs \<and> getParent T cf \<noteq> None
        \<and> (\<forall>i. Suc i < length vs \<longrightarrow>
              getNextFocus T (vs ! Suc i) d (getParentUserData T (vs ! i)) = None) \<longrightarrow>
        navigate T d s = Some (emit (ShakeHighlight cf d) s)
        \<and> currentFocus (emit (ShakeHighlight cf d) s) = currentFocus s)
   \<and> (currentFocus s = Some cf \<and> chain T n cf = Some vs \<longrightarrow>
        (\<exists>s'. navigate T d s = Some s'
           \<and> (currentFocus s' \<noteq> currentFocus s \<longrightarrow>
                (\<exists>i. Suc i < length vs \<and>
                     getNextFocus T (vs ! Suc i) d (getParentUserData T (vs ! i)) \<noteq> None))))"
proof (intro conjI impI)
  assume "currentFocus s = None"
  then show "navigate T d s = Some s" by (simp add: navigate_def)
next
  assume "currentFocus s = Some cf \<and> getParent T cf = None"
  then show "navigate T d s = Some s" by (simp add: navigate_def)
next
  assume h: "currentFocus s = Some cf \<and> chain T n cf = Some vs \<and> getParent T cf \<noteq> None
        \<and> (\<forall>i. Suc i < length vs \<longrightarrow>
              getNextFocus T (vs ! Suc i) d (getParentUserData T (vs ! i)) = None)"
  then obtain p where p: "getParent T cf = Some p" by auto
  from h have c: "chain T n cf = Some vs" by simp
  from c p obtain m vs' where vs: "vs = cf # vs'" "chain T m p = Some vs'"
    by (cases rule: chain_Some_cases) auto
  have "vs' \<noteq> [] \<and> hd vs' = p" using chain_hd [OF vs(2)] .
  then have "vs ! Suc 0 = p" "vs ! 0 = cf" "Suc 0 < length vs"
    using vs(1) by (cases vs'; simp)+
  then have first: "getNextFocus T p d (getParentUserData T cf) = None"
    using h by metis
  have "navigate_walk T d cf None = Some None"
    using navigate_walk_dead [OF c] h by simp
  then show "navigate T d s = Some (emit (ShakeHighlight cf d) s)"
    using h p first by (simp add: navigate_def)
  show "currentFocus (emit (ShakeHighlight cf d) s) = currentFocus s" by simp
next
  assume h: "currentFocus s = Some cf \<and> chain T n cf = Some vs"
  then have c: "chain T n cf = Some vs" by simp
  show "\<exists>s'. navigate T d s = Some s'
           \<and> (currentFocus s' \<noteq> currentFocus s \<longrightarrow>
                (\<exists>i. Suc i < length vs \<and>
                     getNextFocus T (vs ! Suc i) d (getParentUserData T (vs ! i)) \<noteq> None))"
  proof (cases "getParent T cf")
    case None
    then show ?thesis using h by (simp add: navigate_def)
  next
    case (Some p)
    from c Some obtain m vs' where vs: "vs = cf # vs'" "chain T m p = Some vs'"
      by (cases rule: chain_Some_cases) auto
    have "vs' \<noteq> [] \<and> hd vs' = p" using chain_hd [OF vs(2)] .
    then have idx: "vs ! Suc 0 = p" "vs ! 0 = cf" "Suc 0 < length vs"
      using vs(1) by (cases vs'; simp)+
    show ?thesis
    proof (cases "getNextFocus T p d (getParentUserData T cf)")
      case (Some x)
      then have "getNextFocus T (vs ! Suc 0) d (getParentUserData T (vs ! 0)) \<noteq> None"
        using idx by simp
      then have "\<exists>i. Suc i < length vs \<and>
                     getNextFocus T (vs ! Suc i) d (getParentUserData T (vs ! i)) \<noteq> None"
        using idx(3) by blast
      then show ?thesis using h \<open>getParent T cf = Some p\<close> Some by (simp add: navigate_def)
    next
      case None
      obtain r where r: "navigate_walk T d cf None = Some r"
        using navigate_walk_returns [OF c] by blast
      show ?thesis
      proof (cases r)
        case None
        then show ?thesis
          using h \<open>getParent T cf = Some p\<close> \<open>getNextFocus T p d (getParentUserData T cf) = None\<close> r
          by (simp add: navigate_def)
      next
        case (Some x)
        then obtain i where "1 \<le> i" "Suc i < length vs"
          "getNextFocus T (vs ! Suc i) d (getParentUserData T (vs ! i)) = Some x"
          using navigate_walk_found [OF c] r by blast
        then have "\<exists>i. Suc i < length vs \<and>
                     getNextFocus T (vs ! Suc i) d (getParentUserData T (vs ! i)) \<noteq> None"
          by (metis option.distinct(1))
        then show ?thesis
          using h \<open>getParent T cf = Some p\<close> \<open>getNextFocus T p d (getParentUserData T cf) = None\<close> r Some
          by (simp add: navigate_def)
      qed
    qed
  qed
qed

theorem navigate_dead_end_witness:
  "currentFocus app_init = None
   \<and> navigate tree_chain DOWN app_init = Some app_init
   \<and> getParent tree_chain 1 = None
   \<and> navigate tree_chain DOWN (app_init\<lparr>currentFocus := Some 1\<rparr>)
       = Some (app_init\<lparr>currentFocus := Some 1\<rparr>)
   \<and> chain tree_chain 3 3 = Some [3, 2, 1]
   \<and> getParent tree_chain 3 \<noteq> None
   \<and> list_all (\<lambda>i. getNextFocus tree_chain ([3, 2, 1] ! Suc i) DOWN
                      (getParentUserData tree_chain ([3, 2, 1] ! i)) = None) [0, 1]
   \<and> navigate tree_chain DOWN (app_init\<lparr>currentFocus := Some 3\<rparr>)
       = Some (app_init\<lparr>currentFocus := Some 3, calls := [ShakeHighlight 3 DOWN]\<rparr>)"
  using navigate_dead_end [of app_init tree_chain DOWN 1 3 "[3, 2, 1]"]
    navigate_dead_end [of "app_init\<lparr>currentFocus := Some 1\<rparr>" tree_chain DOWN 1 3 "[3, 2, 1]"]
    navigate_dead_end [of "app_init\<lparr>currentFocus := Some 3\<rparr>" tree_chain DOWN 3 3 "[3, 2, 1]"]
  by (simp add: app_init_def tree_chain_def emit_def numeral_3_eq_3)

subsection \<open>Action dispatch\<close>

lemma fired_simps [simp]:
  "fired_view (v, a, r) = v" "fired_action (v, a, r) = a" "fired_result (v, a, r) = r"
  by (simp_all add: fired_view_def fired_action_def fired_result_def)

lemma handleAction_walk_chain:
  "chain T n v = Some vs \<Longrightarrow>
   handleAction_walk T (Some v) button acc =
     Some (fold (\<lambda>u. handleAction_node u button (getActions T u)) vs acc)"
proof (induction n arbitrary: v vs acc)
  case 0
  then show ?case by simp
next
  case (Suc n)
  from Suc.prems show ?case
  proof (cases rule: chain_Some_cases)
    case (1 k)
    then show ?thesis by simp
  next
    case (2 k p vs')
    then have "chain T n p = Some vs'" by simp
    from Suc.IH [OF this] show ?thesis using 2 by simp
  qed
qed

lemma short_circuit_snoc:
  assumes "consumed_ok C F" "short_circuit F" "key a \<notin> C"
  shows "short_circuit (F @ [(v, a, r)])"
  unfolding short_circuit_def
proof (intro allI impI)
  fix p q
  assume h: "p < q \<and> q < length (F @ [(v, a, r)]) \<and> fired_result ((F @ [(v, a, r)]) ! p)"
  then have p: "p < length F" by simp
  show "key (fired_action ((F @ [(v, a, r)]) ! q)) \<noteq> key (fired_action ((F @ [(v, a, r)]) ! p))"
  proof (cases "q < length F")
    case True
    then show ?thesis using h p assms(2) by (simp add: short_circuit_def nth_append)
  next
    case False
    then have q: "q = length F" using h by simp
    have "fired_result (F ! p)" using h p by (simp add: nth_append)
    then have "key (fired_action (F ! p)) \<in> C"
      using assms(1) p nth_mem [OF p] by (auto simp: consumed_ok_def)
    then show ?thesis using assms(3) p q by (auto simp: nth_append)
  qed
qed

lemma consumed_ok_snoc:
  assumes "consumed_ok C F"
  shows "consumed_ok (if r then insert (key a) C else C) (F @ [(v, a, r)])"
proof (cases r)
  case True
  have "{e \<in> set (F @ [(v, a, r)]). fired_result e} = insert (v, a, r) {e \<in> set F. fired_result e}"
    using True by auto
  then show ?thesis using assms True by (simp add: consumed_ok_def)
next
  case False
  have "{e \<in> set (F @ [(v, a, r)]). fired_result e} = {e \<in> set F. fired_result e}"
    using False by auto
  then show ?thesis using assms False by (simp add: consumed_ok_def)
qed

lemma node_invariant:
  "consumed_ok C F \<Longrightarrow> short_circuit F \<Longrightarrow>
   handleAction_node v button as (C, w, F) = (C', w', F') \<Longrightarrow>
   consumed_ok C' F' \<and> short_circuit F'"
proof (induction as arbitrary: C w F)
  case Nil
  then show ?case by simp
next
  case (Cons a as)
  show ?case
  proof (cases "key a AND button \<noteq> 0 \<and> key a \<notin> C \<and> available a")
    case False
    then have "handleAction_node v button as (C, w, F) = (C', w', F')"
      using Cons.prems(3) by (auto split: if_splits)
    then show ?thesis using Cons.IH Cons.prems(1,2) by blast
  next
    case True
    obtain r w1 where l: "actionListener a w = (r, w1)" by (cases "actionListener a w")
    have step: "handleAction_node v button as
        (if r then insert (key a) C else C, w1, F @ [(v, a, r)]) = (C', w', F')"
      using Cons.prems(3) True l by simp
    show ?thesis
      using Cons.IH [OF consumed_ok_snoc [OF Cons.prems(1)] _ step]
        short_circuit_snoc [OF Cons.prems(1,2)] True by blast
  qed
qed

lemma node_extends:
  "handleAction_node v button as (C, w, F) = (C', w', F') \<Longrightarrow>
   \<exists>ext. F' = F @ ext \<and> (\<forall>e\<in>set ext. fired_view e = v)"
proof (induction as arbitrary: C w F)
  case Nil
  then show ?case by simp
next
  case (Cons a as)
  show ?case
  proof (cases "key a AND button \<noteq> 0 \<and> key a \<notin> C \<and> available a")
    case False
    then have "handleAction_node v button as (C, w, F) = (C', w', F')"
      using Cons.prems by (auto split: if_splits)
    then show ?thesis using Cons.IH by blast
  next
    case True
    obtain r w1 where l: "actionListener a w = (r, w1)" by (cases "actionListener a w")
    have step: "handleAction_node v button as
        (if r then insert (key a) C else C, w1, F @ [(v, a, r)]) = (C', w', F')"
      using Cons.prems True l by simp
    from Cons.IH [OF step] obtain ext where
      "F' = (F @ [(v, a, r)]) @ ext" "\<forall>e\<in>set ext. fired_view e = v" by blast
    then have "F' = F @ ((v, a, r) # ext) \<and> (\<forall>e\<in>set ((v, a, r) # ext). fired_view e = v)"
      by simp
    then show ?thesis by blast
  qed
qed

lemma node_consumed_subset:
  "handleAction_node v button as (C, w, F) = (C', w', F') \<Longrightarrow> C' \<subseteq> C \<union> key ` set as"
proof (induction as arbitrary: C w F)
  case Nil
  then show ?case by simp
next
  case (Cons a as)
  show ?case
  proof (cases "key a AND button \<noteq> 0 \<and> key a \<notin> C \<and> available a")
    case False
    then have "handleAction_node v button as (C, w, F) = (C', w', F')"
      using Cons.prems by (auto split: if_splits)
    then show ?thesis using Cons.IH by fastforce
  next
    case True
    obtain r w1 where l: "actionListener a w = (r, w1)" by (cases "actionListener a w")
    have step: "handleAction_node v button as
        (if r then insert (key a) C else C, w1, F @ [(v, a, r)]) = (C', w', F')"
      using Cons.prems True l by simp
    from Cons.IH [OF step] show ?thesis by (auto split: if_splits)
  qed
qed

lemma node_append:
  "handleAction_node v button (xs @ ys) acc =
     handleAction_node v button ys (handleAction_node v button xs acc)"
proof (induction xs arbitrary: acc)
  case Nil
  then show ?case by simp
next
  case (Cons a xs)
  obtain C w F where acc: "acc = (C, w, F)" by (cases acc) auto
  show ?case unfolding acc using Cons.IH by (simp split: prod.splits)
qed

lemma node_skip:
  "\<forall>x\<in>set pre. key x AND button = 0 \<or> \<not> available x \<Longrightarrow>
   handleAction_node v button pre (C, w, F) = (C, w, F)"
  by (induction pre) auto

lemma node_fires:
  assumes "key a \<notin> C" "available a" "key a AND button \<noteq> 0" "\<forall>x\<in>set pre. key x \<noteq> key a"
    and "handleAction_node v button (pre @ a # post) (C, w, F) = (C', w', F')"
  shows "\<exists>r. (v, a, r) \<in> set F'"
proof -
  obtain C1 w1 F1 where pre: "handleAction_node v button pre (C, w, F) = (C1, w1, F1)"
    by (cases "handleAction_node v button pre (C, w, F)") auto
  have "C1 \<subseteq> C \<union> key ` set pre" using node_consumed_subset [OF pre] .
  moreover have "key a \<notin> key ` set pre"
  proof
    assume "key a \<in> key ` set pre"
    then obtain x where "x \<in> set pre" "key a = key x" by (rule imageE)
    then show False using assms(4) by metis
  qed
  ultimately have notin: "key a \<notin> C1" using assms(1) by blast
  obtain r w2 where l: "actionListener a w1 = (r, w2)" by (cases "actionListener a w1")
  have "handleAction_node v button post
      (if r then insert (key a) C1 else C1, w2, F1 @ [(v, a, r)]) = (C', w', F')"
    using assms(2,3,5) notin l by (simp add: node_append pre)
  from node_extends [OF this] obtain ext where "F' = (F1 @ [(v, a, r)]) @ ext"
    by blast
  then show ?thesis by auto
qed

lemma fold_invariant:
  "consumed_ok C F \<Longrightarrow> short_circuit F \<Longrightarrow>
   fold (\<lambda>u. handleAction_node u button (getActions T u)) vs (C, w, F) = (C', w', F') \<Longrightarrow>
   consumed_ok C' F' \<and> short_circuit F'"
proof (induction vs arbitrary: C w F)
  case Nil
  then show ?case by simp
next
  case (Cons u vs)
  obtain C1 w1 F1 where n: "handleAction_node u button (getActions T u) (C, w, F) = (C1, w1, F1)"
    by (cases "handleAction_node u button (getActions T u) (C, w, F)") auto
  have "consumed_ok C1 F1 \<and> short_circuit F1"
    using node_invariant [OF Cons.prems(1,2) n] .
  then show ?case using Cons.IH [of C1 F1 w1] Cons.prems(3) n by simp
qed

lemma fold_consumed_subset:
  "fold (\<lambda>u. handleAction_node u button (getActions T u)) vs (C, w, F) = (C', w', F') \<Longrightarrow>
   C' \<subseteq> C \<union> (\<Union>u\<in>set vs. key ` set (getActions T u))"
proof (induction vs arbitrary: C w F)
  case Nil
  then show ?case by simp
next
  case (Cons u vs)
  obtain C1 w1 F1 where n: "handleAction_node u button (getActions T u) (C, w, F) = (C1, w1, F1)"
    by (cases "handleAction_node u button (getActions T u) (C, w, F)") auto
  have a: "C1 \<subseteq> C \<union> key ` set (getActions T u)" using node_consumed_subset [OF n] .
  have "C' \<subseteq> C1 \<union> (\<Union>u\<in>set vs. key ` set (getActions T u))"
    using Cons.IH [of C1 w1 F1] Cons.prems n by simp
  then show ?case using a by auto
qed

lemma fold_ordered:
  "fold (\<lambda>u. handleAction_node u button (getActions T u)) vs (C, w, F) = (C', w', F') \<Longrightarrow>
   \<exists>ext. F' = F @ ext \<and> (\<forall>e\<in>set ext. fired_view e \<in> set vs) \<and> walk_ordered vs ext"
proof (induction vs arbitrary: C w F)
  case Nil
  then show ?case by (simp add: walk_ordered_def)
next
  case (Cons u vs)
  obtain C1 w1 F1 where n: "handleAction_node u button (getActions T u) (C, w, F) = (C1, w1, F1)"
    by (cases "handleAction_node u button (getActions T u) (C, w, F)") auto
  obtain e1 where e1: "F1 = F @ e1" "\<forall>e\<in>set e1. fired_view e = u"
    using node_extends [OF n] by blast
  have "fold (\<lambda>u. handleAction_node u button (getActions T u)) vs (C1, w1, F1) = (C', w', F')"
    using Cons.prems n by simp
  from Cons.IH [OF this] obtain e2 where e2: "F' = F1 @ e2"
    "\<forall>e\<in>set e2. fired_view e \<in> set vs" "walk_ordered vs e2" by blast
  have "walk_ordered (u # vs) (e1 @ e2)"
    unfolding walk_ordered_def
  proof (intro allI impI)
    fix p q assume h: "p < q \<and> q < length (e1 @ e2)"
    let ?E = "e1 @ e2"
    show "\<exists>i j. i \<le> j \<and> j < length (u # vs) \<and> fired_view (?E ! p) = (u # vs) ! i
            \<and> fired_view (?E ! q) = (u # vs) ! j"
    proof (cases "p < length e1")
      case True
      then have vp: "fired_view (?E ! p) = u" using e1(2) by (simp add: nth_append)
      show ?thesis
      proof (cases "q < length e1")
        case True
        then have "fired_view (?E ! q) = u" using e1(2) by (simp add: nth_append)
        then have "(0::nat) \<le> 0 \<and> 0 < length (u # vs) \<and> fired_view (?E ! p) = (u # vs) ! 0
            \<and> fired_view (?E ! q) = (u # vs) ! 0"
          using vp by simp
        then show ?thesis by blast
      next
        case False
        then have "?E ! q = e2 ! (q - length e1)"
          by (simp add: nth_append)
        moreover have "q - length e1 < length e2"
          using False h by simp linarith
        ultimately have "?E ! q = e2 ! (q - length e1)" "q - length e1 < length e2"
          by simp_all
        then have "fired_view (?E ! q) \<in> set vs" using e2(2) by (metis nth_mem)
        then obtain j where j: "j < length vs" "vs ! j = fired_view (?E ! q)"
          by (auto simp: in_set_conv_nth)
        then have "0 \<le> Suc j \<and> Suc j < length (u # vs) \<and> fired_view (?E ! p) = (u # vs) ! 0
            \<and> fired_view (?E ! q) = (u # vs) ! Suc j"
          using vp by simp
        then show ?thesis by blast
      qed
    next
      case False
      then have pq: "p - length e1 < q - length e1" "q - length e1 < length e2"
        using h by auto
      have nth: "?E ! p = e2 ! (p - length e1)" "?E ! q = e2 ! (q - length e1)"
        using False h by (simp_all add: nth_append)
      obtain i j where ij: "i \<le> j" "j < length vs"
        "fired_view (e2 ! (p - length e1)) = vs ! i" "fired_view (e2 ! (q - length e1)) = vs ! j"
        using e2(3) pq unfolding walk_ordered_def by blast
      then have "Suc i \<le> Suc j \<and> Suc j < length (u # vs)
          \<and> fired_view (?E ! p) = (u # vs) ! Suc i \<and> fired_view (?E ! q) = (u # vs) ! Suc j"
        using nth by simp
      then show ?thesis by blast
    qed
  qed
  moreover have "\<forall>e\<in>set (e1 @ e2). fired_view e \<in> set (u # vs)"
    using e1(2) e2(2) by auto
  moreover have "F' = F @ (e1 @ e2)" using e1(1) e2(1) by simp
  ultimately show ?case by blast
qed

lemma fold_fires:
  assumes "i < length vs" "getActions T (vs ! i) = pre @ a # post" "available a"
    "key a AND button \<noteq> 0" "\<forall>x\<in>set pre. key x \<noteq> key a"
    "\<forall>d<i. \<forall>x\<in>set (getActions T (vs ! d)). key x \<noteq> key a"
    and "fold (\<lambda>u. handleAction_node u button (getActions T u)) vs ({}, w, []) = (C', w', F')"
  shows "\<exists>r. (vs ! i, a, r) \<in> set F'"
proof -
  let ?f = "\<lambda>u. handleAction_node u button (getActions T u)"
  have split: "vs = take i vs @ vs ! i # drop (Suc i) vs"
    using assms(1) by (simp add: id_take_nth_drop)
  obtain C1 w1 F1 where a1: "fold ?f (take i vs) ({}, w, []) = (C1, w1, F1)"
    by (cases "fold ?f (take i vs) ({}, w, [])") auto
  obtain C2 w2 F2 where a2: "?f (vs ! i) (C1, w1, F1) = (C2, w2, F2)"
    by (cases "?f (vs ! i) (C1, w1, F1)") auto
  have "fold ?f vs ({}, w, []) = fold ?f (drop (Suc i) vs) (?f (vs ! i) (fold ?f (take i vs) ({}, w, [])))"
    by (subst split) simp
  then have a3: "fold ?f (drop (Suc i) vs) (C2, w2, F2) = (C', w', F')"
    using assms(7) a1 a2 by simp
  have sub: "C1 \<subseteq> {} \<union> (\<Union>u\<in>set (take i vs). key ` set (getActions T u))"
    using fold_consumed_subset [OF a1] .
  have notin: "key a \<notin> C1"
  proof
    assume "key a \<in> C1"
    then obtain u x where ux: "u \<in> set (take i vs)" "x \<in> set (getActions T u)" "key a = key x"
      using sub by auto
    then obtain d where d: "d < length (take i vs)" "take i vs ! d = u"
      by (auto simp: in_set_conv_nth)
    then have "d < i" "vs ! d = u" by simp_all
    then have "key x \<noteq> key a" using assms(6) ux(2) by blast
    then show False using ux(3) by simp
  qed
  have "handleAction_node (vs ! i) button (pre @ a # post) (C1, w1, F1) = (C2, w2, F2)"
    using a2 assms(2) by simp
  from node_fires [OF notin assms(3,4,5) this] obtain r where r: "(vs ! i, a, r) \<in> set F2"
    by blast
  from fold_ordered [OF a3] obtain ext where "F' = F2 @ ext" by blast
  then show ?thesis using r by auto
qed

lemma ancestor_skipped:
  assumes "distinct vs" "walk_ordered vs F" "short_circuit F"
    and "i < j" "j < length vs" "(vs ! i, a1, True) \<in> set F" "key a2 = key a1"
  shows "(vs ! j, a2, r) \<notin> set F"
proof
  assume "(vs ! j, a2, r) \<in> set F"
  then obtain q where q: "q < length F" "F ! q = (vs ! j, a2, r)"
    by (auto simp: in_set_conv_nth)
  obtain p where p: "p < length F" "F ! p = (vs ! i, a1, True)"
    using assms(6) by (auto simp: in_set_conv_nth)
  have i: "i < length vs" using assms(4,5) by simp
  have "p < q"
  proof (rule ccontr)
    assume "\<not> p < q"
    then consider "p = q" | "q < p" by linarith
    then show False
    proof cases
      case 1
      then have "vs ! i = vs ! j" using p(2) q(2) by simp
      then show False using assms(1,4,5) i by (simp add: nth_eq_iff_index_eq)
    next
      case 2
      then obtain i' j' where ij: "i' \<le> j'" "j' < length vs"
        "fired_view (F ! q) = vs ! i'" "fired_view (F ! p) = vs ! j'"
        using assms(2) p(1) unfolding walk_ordered_def by blast
      have "i' < length vs" using ij(1,2) by simp
      then have "i' = j" using ij(3) q(2) assms(1,5) by (simp add: nth_eq_iff_index_eq)
      moreover have "j' = i" using ij(2,4) p(2) assms(1) i by (simp add: nth_eq_iff_index_eq)
      ultimately show False using ij(1) assms(4) by simp
    qed
  qed
  then have "key (fired_action (F ! q)) \<noteq> key (fired_action (F ! p))"
    using assms(3) q(1) p(2) unfolding short_circuit_def by (metis fired_simps(3))
  then show False using p(2) q(2) assms(7) by simp
qed

lemma handleAction_chain:
  assumes "currentFocus s = Some f" and "chain T n f = Some vs"
    and "fold (\<lambda>u. handleAction_node u button (getActions T u)) vs ({}, w, []) = (C', w', F')"
  shows "handleAction T s w button = Some (C' \<noteq> {}, w', F')"
  using assms handleAction_walk_chain [OF assms(2), of button "({}, w, [])"]
  by (simp add: handleAction_def)

lemma node_extends_actions:
  "handleAction_node v button as (C, w, F) = (C', w', F') \<Longrightarrow>
   \<exists>ext. F' = F @ ext \<and> (\<forall>e\<in>set ext. fired_view e = v \<and> fired_action e \<in> set as)"
proof (induction as arbitrary: C w F)
  case Nil
  then show ?case by simp
next
  case (Cons a as)
  show ?case
  proof (cases "key a AND button \<noteq> 0 \<and> key a \<notin> C \<and> available a")
    case False
    then have "handleAction_node v button as (C, w, F) = (C', w', F')"
      using Cons.prems by (auto split: if_splits)
    from Cons.IH [OF this] obtain ext where
      "F' = F @ ext" "\<forall>e\<in>set ext. fired_view e = v \<and> fired_action e \<in> set as" by blast
    then have "F' = F @ ext \<and> (\<forall>e\<in>set ext. fired_view e = v \<and> fired_action e \<in> set (a # as))"
      by simp
    then show ?thesis by blast
  next
    case True
    obtain r w1 where l: "actionListener a w = (r, w1)" by (cases "actionListener a w")
    have step: "handleAction_node v button as
        (if r then insert (key a) C else C, w1, F @ [(v, a, r)]) = (C', w', F')"
      using Cons.prems True l by simp
    from Cons.IH [OF step] obtain ext where
      "F' = (F @ [(v, a, r)]) @ ext" "\<forall>e\<in>set ext. fired_view e = v \<and> fired_action e \<in> set as"
      by blast
    then have "F' = F @ ((v, a, r) # ext)
        \<and> (\<forall>e\<in>set ((v, a, r) # ext). fired_view e = v \<and> fired_action e \<in> set (a # as))"
      by simp
    then show ?thesis by blast
  qed
qed

lemma fold_fires_unconsumed:
  assumes "i < length vs" "getActions T (vs ! i) = pre @ a # post" "available a"
    "key a AND button \<noteq> 0"
    and res: "fold (\<lambda>u. handleAction_node u button (getActions T u)) vs ({}, w, []) = (C', w', F')"
    and closer: "\<forall>d<i. \<forall>x r. (vs ! d, x, r) \<in> set F' \<and> key x = key a \<longrightarrow> \<not> r"
    and own: "\<forall>x\<in>set pre. \<forall>r. (vs ! i, x, r) \<in> set F' \<and> key x = key a \<longrightarrow> \<not> r"
  shows "\<exists>r. (vs ! i, a, r) \<in> set F'"
proof -
  let ?f = "\<lambda>u. handleAction_node u button (getActions T u)"
  let ?v = "vs ! i"
  have split: "vs = take i vs @ vs ! i # drop (Suc i) vs"
    using assms(1) by (simp add: id_take_nth_drop)
  obtain C1 w1 F1 where a1: "fold ?f (take i vs) ({}, w, []) = (C1, w1, F1)"
    by (cases "fold ?f (take i vs) ({}, w, [])") auto
  obtain C2 w2 F2 where a2: "handleAction_node ?v button pre (C1, w1, F1) = (C2, w2, F2)"
    by (cases "handleAction_node ?v button pre (C1, w1, F1)") auto
  obtain C3 w3 F3 where a3: "handleAction_node ?v button (a # post) (C2, w2, F2) = (C3, w3, F3)"
    by (cases "handleAction_node ?v button (a # post) (C2, w2, F2)") auto
  have node: "?f ?v (C1, w1, F1) = (C3, w3, F3)"
    using assms(2) a2 a3 by (simp add: node_append del: handleAction_node.simps)
  have "fold ?f vs ({}, w, []) = fold ?f (drop (Suc i) vs) (?f ?v (fold ?f (take i vs) ({}, w, [])))"
    by (subst split) simp
  then have a4: "fold ?f (drop (Suc i) vs) (C3, w3, F3) = (C', w', F')"
    using res a1 node by simp
  have init: "consumed_ok {} ([] :: (view \<times> 'a Action \<times> bool) list)"
    "short_circuit ([] :: (view \<times> 'a Action \<times> bool) list)"
    by (simp_all add: consumed_ok_def short_circuit_def)
  have inv1: "consumed_ok C1 F1 \<and> short_circuit F1"
    using fold_invariant [OF init a1] .
  then have inv2: "consumed_ok C2 F2"
    using node_invariant [OF _ _ a2] by blast
  from fold_ordered [OF a1] have v1: "\<forall>e\<in>set F1. fired_view e \<in> set (take i vs)" by auto
  from node_extends_actions [OF a2] obtain e2 where e2: "F2 = F1 @ e2"
    "\<forall>e\<in>set e2. fired_view e = ?v \<and> fired_action e \<in> set pre" by blast
  from node_extends [OF a3] obtain e3 where e3: "F3 = F2 @ e3" by blast
  from fold_ordered [OF a4] obtain e4 where e4: "F' = F3 @ e4" by blast
  have sub: "set F2 \<subseteq> set F'" using e3 e4 by auto
  have notin: "key a \<notin> C2"
  proof
    assume "key a \<in> C2"
    then obtain e where e: "e \<in> set F2" "fired_result e" "key (fired_action e) = key a"
      using inv2 by (auto simp: consumed_ok_def)
    obtain u x r where uxr: "e = (u, x, r)" by (cases e) auto
    have r: "r" "key x = key a" "(u, x, r) \<in> set F'"
      using e uxr sub by auto
    from e(1) consider "e \<in> set F1" | "e \<in> set e2" using e2(1) by auto
    then show False
    proof cases
      case 1
      then have "u \<in> set (take i vs)" using v1 uxr by fastforce
      then obtain d where d: "d < length (take i vs)" "take i vs ! d = u"
        by (auto simp: in_set_conv_nth)
      then have "d < i" "vs ! d = u" by simp_all
      then show False using closer r by blast
    next
      case 2
      then have "u = ?v" "x \<in> set pre" using e2(2) uxr by fastforce+
      then show False using own r by blast
    qed
  qed
  have "handleAction_node ?v button ([] @ a # post) (C2, w2, F2) = (C3, w3, F3)"
    using a3 by simp
  from node_fires [OF notin assms(3,4) _ this] obtain r where "(?v, a, r) \<in> set F3" by auto
  then show ?thesis using e4 by auto
qed

text \<open>
  C1, as amended. On a finite parent chain \<open>vs\<close> of the focus, \<^verbatim>\<open>handleAction\<close> returns,
  and: an available action that matches the button fires when no action considered
  before it (earlier on its node, or on a node closer to the focus) has its key; more
  generally it fires whenever every listener invoked before it on its key (on a node
  closer to the focus, or earlier on its own node) returned false, so after a closer
  listener that returns false the ancestor's action fires as well; once a listener has
  returned true, no action considered later with the same key fires; in particular,
  when the action closer to the focus has fired and its listener returned true, no
  action with its key on an ancestor fires. The result is true iff some listener
  returned true.
\<close>

theorem dispatch_closest_action:
  assumes "currentFocus s = Some f" and "chain T n f = Some vs"
  shows "\<exists>consumed w' fired. handleAction T s w button = Some (consumed, w', fired)
     \<and> (\<forall>i pre a post.
           i < length vs \<and> getActions T (vs ! i) = pre @ a # post \<and> available a
           \<and> key a AND button \<noteq> 0 \<and> (\<forall>x\<in>set pre. key x \<noteq> key a)
           \<and> (\<forall>d<i. \<forall>x\<in>set (getActions T (vs ! d)). key x \<noteq> key a) \<longrightarrow>
           (\<exists>r. (vs ! i, a, r) \<in> set fired))
     \<and> (\<forall>i pre a post.
           i < length vs \<and> getActions T (vs ! i) = pre @ a # post \<and> available a
           \<and> key a AND button \<noteq> 0
           \<and> (\<forall>d<i. \<forall>x r. (vs ! d, x, r) \<in> set fired \<and> key x = key a \<longrightarrow> \<not> r)
           \<and> (\<forall>x\<in>set pre. \<forall>r. (vs ! i, x, r) \<in> set fired \<and> key x = key a \<longrightarrow> \<not> r) \<longrightarrow>
           (\<exists>r. (vs ! i, a, r) \<in> set fired))
     \<and> short_circuit fired
     \<and> (\<forall>i j a1 a2 r.
           i < j \<and> j < length vs \<and> (vs ! i, a1, True) \<in> set fired \<and> key a2 = key a1 \<longrightarrow>
           (vs ! j, a2, r) \<notin> set fired)
     \<and> consumed = (\<exists>e\<in>set fired. fired_result e)"
proof -
  let ?f = "\<lambda>u. handleAction_node u button (getActions T u)"
  obtain C' w' F' where res: "fold ?f vs ({}, w, []) = (C', w', F')"
    by (cases "fold ?f vs ({}, w, [])") auto
  have ha: "handleAction T s w button = Some (C' \<noteq> {}, w', F')"
    using handleAction_chain [OF assms res] .
  have "consumed_ok {} ([] :: (view \<times> 'a Action \<times> bool) list)"
    "short_circuit ([] :: (view \<times> 'a Action \<times> bool) list)"
    by (simp_all add: consumed_ok_def short_circuit_def)
  from fold_invariant [OF this res] have inv: "consumed_ok C' F'" "short_circuit F'"
    by simp_all
  from fold_ordered [OF res] have ord: "walk_ordered vs F'" by auto
  have dist: "distinct vs" using chain_distinct [OF assms(2)] .
  have A: "\<forall>i pre a post.
           i < length vs \<and> getActions T (vs ! i) = pre @ a # post \<and> available a
           \<and> key a AND button \<noteq> 0 \<and> (\<forall>x\<in>set pre. key x \<noteq> key a)
           \<and> (\<forall>d<i. \<forall>x\<in>set (getActions T (vs ! d)). key x \<noteq> key a) \<longrightarrow>
           (\<exists>r. (vs ! i, a, r) \<in> set F')"
    using fold_fires [OF _ _ _ _ _ _ res] by blast
  have E: "\<forall>i pre a post.
           i < length vs \<and> getActions T (vs ! i) = pre @ a # post \<and> available a
           \<and> key a AND button \<noteq> 0
           \<and> (\<forall>d<i. \<forall>x r. (vs ! d, x, r) \<in> set F' \<and> key x = key a \<longrightarrow> \<not> r)
           \<and> (\<forall>x\<in>set pre. \<forall>r. (vs ! i, x, r) \<in> set F' \<and> key x = key a \<longrightarrow> \<not> r) \<longrightarrow>
           (\<exists>r. (vs ! i, a, r) \<in> set F')"
  proof (intro allI impI)
    fix i pre a post
    assume h: "i < length vs \<and> getActions T (vs ! i) = pre @ a # post \<and> available a
           \<and> key a AND button \<noteq> 0
           \<and> (\<forall>d<i. \<forall>x r. (vs ! d, x, r) \<in> set F' \<and> key x = key a \<longrightarrow> \<not> r)
           \<and> (\<forall>x\<in>set pre. \<forall>r. (vs ! i, x, r) \<in> set F' \<and> key x = key a \<longrightarrow> \<not> r)"
    then have "i < length vs" "getActions T (vs ! i) = pre @ a # post" "available a"
      "key a AND button \<noteq> 0"
      "\<forall>d<i. \<forall>x r. (vs ! d, x, r) \<in> set F' \<and> key x = key a \<longrightarrow> \<not> r"
      "\<forall>x\<in>set pre. \<forall>r. (vs ! i, x, r) \<in> set F' \<and> key x = key a \<longrightarrow> \<not> r"
      by blast+
    from fold_fires_unconsumed [OF this(1,2,3,4) res this(5,6)]
    show "\<exists>r. (vs ! i, a, r) \<in> set F'" .
  qed
  have C: "\<forall>i j a1 a2 r.
           i < j \<and> j < length vs \<and> (vs ! i, a1, True) \<in> set F' \<and> key a2 = key a1 \<longrightarrow>
           (vs ! j, a2, r) \<notin> set F'"
    using ancestor_skipped [OF dist ord inv(2)] by blast
  have "(C' \<noteq> {}) = ({e \<in> set F'. fired_result e} \<noteq> {})"
    using inv(1) by (simp add: consumed_ok_def)
  also have "\<dots> = (\<exists>e\<in>set F'. fired_result e)" by blast
  finally have D: "(C' \<noteq> {}) = (\<exists>e\<in>set F'. fired_result e)" .
  show ?thesis
    by (intro exI [of _ "C' \<noteq> {}"] exI [of _ w'] exI [of _ F'] conjI ha A E inv(2) C D)
qed

theorem dispatch_closest_action_witness:
  "currentFocus app_focus2 = Some 2
   \<and> chain (tree_two True) 2 2 = Some [2, 1]
   \<and> handleAction (tree_two True) app_focus2 [] KEY_A
       = Some (True, [''focus''], [(2, act ''focus'' True, True)])
   \<and> chain (tree_two False) 2 2 = Some [2, 1]
   \<and> handleAction (tree_two False) app_focus2 [] KEY_A
       = Some (True, [''focus'', ''ancestor''],
               [(2, act ''focus'' False, False), (1, act ''ancestor'' True, True)])"
  using dispatch_closest_action [of app_focus2 2 "tree_two True" 2 "[2, 1]" "[]" KEY_A]
    dispatch_closest_action [of app_focus2 2 "tree_two False" 2 "[2, 1]" "[]" KEY_A]
  by (simp add: app_focus2_def app_init_def tree_two_def act_def KEY_A_def handleAction_def
      numeral_2_eq_2)

text \<open>
  The claim as written fails when the listener of the closer action returns false: the
  key is not consumed and the ancestor's action on the same key fires too.
\<close>

theorem dispatch_closest_action_counterexample:
  "available (act ''focus'' False) \<and> available (act ''ancestor'' True)
   \<and> key (act ''focus'' False) = key (act ''ancestor'' True)
   \<and> handleAction (tree_two False) app_focus2 [] KEY_A
       = Some (True, [''focus'', ''ancestor''],
               [(2, act ''focus'' False, False), (1, act ''ancestor'' True, True)])"
  by (simp add: app_focus2_def app_init_def tree_two_def act_def KEY_A_def handleAction_def)

text \<open>
  C8, as amended. Consumption order is focus-first: on a finite parent chain \<open>vs\<close> of the
  focus, the listeners are invoked in the order of the chain, the focused node's before
  its ancestors', and the first available matching action of the focused node is the
  first one invoked, whatever its ancestors hold.
\<close>

theorem dispatch_focus_first:
  assumes "currentFocus s = Some f" and "chain T n f = Some vs"
  shows "\<exists>consumed w' fired. handleAction T s w button = Some (consumed, w', fired)
     \<and> walk_ordered vs fired
     \<and> (\<forall>pre a post.
           getActions T f = pre @ a # post \<and> available a \<and> key a AND button \<noteq> 0
           \<and> (\<forall>x\<in>set pre. key x AND button = 0 \<or> \<not> available x) \<longrightarrow>
           fired \<noteq> [] \<and> fired_view (hd fired) = f \<and> fired_action (hd fired) = a)"
proof -
  let ?f = "\<lambda>u. handleAction_node u button (getActions T u)"
  obtain C' w' F' where res: "fold ?f vs ({}, w, []) = (C', w', F')"
    by (cases "fold ?f vs ({}, w, [])") auto
  have ha: "handleAction T s w button = Some (C' \<noteq> {}, w', F')"
    using handleAction_chain [OF assms res] .
  from fold_ordered [OF res] have ord: "walk_ordered vs F'" by auto
  obtain rest where vs: "vs = f # rest"
    using chain_hd [OF assms(2)] by (cases vs) auto
  have first: "\<forall>pre a post.
           getActions T f = pre @ a # post \<and> available a \<and> key a AND button \<noteq> 0
           \<and> (\<forall>x\<in>set pre. key x AND button = 0 \<or> \<not> available x) \<longrightarrow>
           F' \<noteq> [] \<and> fired_view (hd F') = f \<and> fired_action (hd F') = a"
  proof (intro allI impI)
    fix pre a post
    assume h: "getActions T f = pre @ a # post \<and> available a \<and> key a AND button \<noteq> 0
           \<and> (\<forall>x\<in>set pre. key x AND button = 0 \<or> \<not> available x)"
    obtain r w1 where l: "actionListener a w = (r, w1)" by (cases "actionListener a w")
    obtain C2 w2 F2 where post: "handleAction_node f button post
        (if r then {key a} else {}, w1, [(f, a, r)]) = (C2, w2, F2)"
      by (cases "handleAction_node f button post (if r then {key a} else {}, w1, [(f, a, r)])") auto
    from node_extends [OF post] obtain e1 where e1: "F2 = [(f, a, r)] @ e1" by blast
    from h have "\<forall>x\<in>set pre. key x AND button = 0 \<or> \<not> available x" by simp
    then have "handleAction_node f button pre ({}, w, []) = ({}, w, [])"
      by (rule node_skip)
    then have node: "?f f ({}, w, []) = (C2, w2, F2)"
      using h l post by (simp add: node_append)
    have "fold ?f rest (C2, w2, F2) = (C', w', F')"
      using res vs node by simp
    from fold_ordered [OF this] obtain e2 where "F' = F2 @ e2" by blast
    then have "F' = (f, a, r) # e1 @ e2" using e1 by simp
    then show "F' \<noteq> [] \<and> fired_view (hd F') = f \<and> fired_action (hd F') = a" by simp
  qed
  show ?thesis using ha ord first by blast
qed

theorem dispatch_focus_first_witness:
  "currentFocus app_focus2 = Some 2
   \<and> chain (tree_two False) 2 2 = Some [2, 1]
   \<and> map_option (\<lambda>r. map fired_view (snd (snd r)))
        (handleAction (tree_two False) app_focus2 [] KEY_A) = Some [2, 1]
   \<and> map_option (\<lambda>r. fst (snd r)) (handleAction (tree_two False) app_focus2 [] KEY_A)
       = Some [''focus'', ''ancestor'']"
  using dispatch_focus_first [of app_focus2 2 "tree_two False" 2 "[2, 1]" "[]" KEY_A]
  by (simp add: app_focus2_def app_init_def tree_two_def act_def KEY_A_def handleAction_def
      numeral_2_eq_2)

text \<open>
  The claim as written fails: with an action on the same key on the focused node and on
  its parent, the focused node's listener is invoked and consumes the key, and the
  parent's is never invoked; ancestor-first order would invoke the parent's.
\<close>

theorem dispatch_focus_first_counterexample:
  "handleAction (tree_two True) app_focus2 [] KEY_A
     = Some (True, [''focus''], [(2, act ''focus'' True, True)])
   \<and> ancestor_first_dispatch (tree_two True) [2, 1] KEY_A []
       = ({KEY_A}, [''ancestor''], [(1, act ''ancestor'' True, True)])"
  by (simp add: app_focus2_def app_init_def tree_two_def act_def KEY_A_def handleAction_def
      ancestor_first_dispatch_def)

subsection \<open>Repeated presses\<close>

lemma navigate_repetitionOldFocus:
  "navigate T d s = Some s' \<Longrightarrow> repetitionOldFocus s' = repetitionOldFocus s"
  by (auto simp: navigate_def split: option.splits)

lemma dispatch_records_focus:
  assumes "blockInputsTokens s = 0"
    and "\<not> (repeating \<and> repetitionOldFocus s = currentFocus s)"
    and "onGamepadButtonPressed T button repeating s w = Some (s', w', fired)"
  shows "repetitionOldFocus s' = currentFocus s"
  using assms
  by (auto simp: onGamepadButtonPressed_def Let_def
      split: option.splits if_splits dest!: navigate_repetitionOldFocus)

lemma repeat_same_focus:
  "repetitionOldFocus s = currentFocus s \<Longrightarrow>
   onGamepadButtonPressed T button True s w = Some (s, w, [])"
  by (simp add: onGamepadButtonPressed_def)

lemma navigate_returns:
  assumes "currentFocus s = Some f" "chain T n f = Some vs"
  shows "\<exists>s'. navigate T d s = Some s'"
proof (cases "getParent T f")
  case None
  then show ?thesis using assms(1) by (simp add: navigate_def)
next
  case (Some p)
  obtain r where "navigate_walk T d f (getNextFocus T p d (getParentUserData T f)) = Some r"
    using navigate_walk_returns [OF assms(2)] by blast
  then show ?thesis using assms(1) Some by (cases r) (simp_all add: navigate_def)
qed

lemma handleAction_first_fires:
  assumes "currentFocus s = Some f" and "chain T n f = Some vs"
    and "getActions T f = pre @ a # post" "available a" "key a AND button \<noteq> 0"
    and "\<forall>x\<in>set pre. key x AND button = 0 \<or> \<not> available x"
  shows "\<exists>consumed w' fired. handleAction T s w button = Some (consumed, w', fired)
     \<and> fired \<noteq> [] \<and> fired_view (hd fired) = f \<and> fired_action (hd fired) = a"
proof -
  let ?f = "\<lambda>u. handleAction_node u button (getActions T u)"
  obtain C' w' F' where res: "fold ?f vs ({}, w, []) = (C', w', F')"
    by (cases "fold ?f vs ({}, w, [])") auto
  have ha: "handleAction T s w button = Some (C' \<noteq> {}, w', F')"
    using handleAction_chain [OF assms(1,2) res] .
  obtain rest where vs: "vs = f # rest"
    using chain_hd [OF assms(2)] by (cases vs) auto
  obtain r w1 where l: "actionListener a w = (r, w1)" by (cases "actionListener a w")
  obtain C2 w2 F2 where post: "handleAction_node f button post
      (if r then {key a} else {}, w1, [(f, a, r)]) = (C2, w2, F2)"
    by (cases "handleAction_node f button post (if r then {key a} else {}, w1, [(f, a, r)])") auto
  from node_extends [OF post] obtain e1 where e1: "F2 = [(f, a, r)] @ e1" by blast
  have "handleAction_node f button pre ({}, w, []) = ({}, w, [])"
    using assms(6) by (rule node_skip)
  then have node: "?f f ({}, w, []) = (C2, w2, F2)"
    using assms(3,4,5) l post by (simp add: node_append)
  have "fold ?f rest (C2, w2, F2) = (C', w', F')"
    using res vs node by simp
  from fold_ordered [OF this] obtain e2 where "F' = F2 @ e2" by blast
  then have "F' = (f, a, r) # e1 @ e2" using e1 by simp
  then have "F' \<noteq> [] \<and> fired_view (hd F') = f \<and> fired_action (hd F') = a" by simp
  then show ?thesis using ha by blast
qed

lemma press_fires:
  assumes "blockInputsTokens s = 0" "currentFocus s = Some f" and "chain T n f = Some vs"
    and "getActions T f = pre @ a # post" "available a" "key a AND button \<noteq> 0"
    and "\<forall>x\<in>set pre. key x AND button = 0 \<or> \<not> available x"
  shows "\<exists>s' w' fired. onGamepadButtonPressed T button False s w = Some (s', w', fired)
     \<and> fired \<noteq> [] \<and> fired_view (hd fired) = f \<and> fired_action (hd fired) = a"
proof -
  let ?s1 = "s\<lparr>repetitionOldFocus := currentFocus s\<rparr>"
  have cf: "currentFocus ?s1 = Some f" using assms(2) by simp
  obtain c w' fired where ha: "handleAction T ?s1 w button = Some (c, w', fired)"
    "fired \<noteq> []" "fired_view (hd fired) = f" "fired_action (hd fired) = a"
    using handleAction_first_fires [OF cf assms(3,4,5,6,7)] by blast
  have nav: "\<And>d. \<exists>s'. navigate T d ?s1 = Some s'"
    using navigate_returns [OF cf assms(3)] .
  obtain n1 n2 n3 n4 where n: "navigate T DOWN ?s1 = Some n1" "navigate T UP ?s1 = Some n2"
    "navigate T LEFT ?s1 = Some n3" "navigate T RIGHT ?s1 = Some n4"
    using nav [of DOWN] nav [of UP] nav [of LEFT] nav [of RIGHT] by blast
  have "\<exists>s'. onGamepadButtonPressed T button False s w = Some (s', w', fired)"
    using assms(1) ha(1) n by (simp add: onGamepadButtonPressed_def Let_def)
  then show ?thesis using ha(2,3,4) by blast
qed

text \<open>
  C9, as amended. A repeat (\<open>repeating = True\<close>) that finds the current focus equal to
  the recorded one returns at once: the state and the world are unchanged and no
  listener is invoked. A dispatch that is not suppressed records the focus it started
  with, so a repeat that follows a dispatch which left the focus where it was is
  suppressed. In the main loop, on a repeat tick (the timer past the delay and on the
  cadence) a held button dispatches nothing while the recorded focus is the current
  one; off a repeat tick nothing is dispatched unless a button is newly pressed, and
  then the whole held mask is dispatched with \<open>repeating = False\<close>. Such a dispatch is
  not suppressed: when input is not blocked, the first available matching action of the
  focused node fires, whatever focus was recorded.
\<close>

theorem repeat_suppressed:
  "(repetitionOldFocus s = currentFocus s \<longrightarrow>
      onGamepadButtonPressed T button True s w = Some (s, w, []))
   \<and> (blockInputsTokens s = 0 \<and> \<not> (repeating \<and> repetitionOldFocus s = currentFocus s)
        \<and> onGamepadButtonPressed T button repeating s w = Some (s', w', fired) \<longrightarrow>
        repetitionOldFocus s' = currentFocus s
        \<and> (currentFocus s' = currentFocus s \<longrightarrow>
             onGamepadButtonPressed T button' True s' w' = Some (s', w', [])))
   \<and> (keysHeld d \<noteq> 0 \<and> BUTTON_REPEAT_DELAY < timer \<and> timer mod BUTTON_REPEAT_CADENCY = 0
        \<and> repetitionOldFocus s = currentFocus s \<longrightarrow>
        mainLoop_gamepad T d timer s w = Some (s, w, []))
   \<and> (keysHeld d \<noteq> 0 \<and> keysDown d \<noteq> 0
        \<and> \<not> (BUTTON_REPEAT_DELAY < timer \<and> timer mod BUTTON_REPEAT_CADENCY = 0) \<longrightarrow>
        mainLoop_gamepad T d timer s w = onGamepadButtonPressed T (keysHeld d) False s w)
   \<and> (keysDown d = 0
        \<and> \<not> (BUTTON_REPEAT_DELAY < timer \<and> timer mod BUTTON_REPEAT_CADENCY = 0) \<longrightarrow>
        mainLoop_gamepad T d timer s w = Some (s, w, []))
   \<and> (blockInputsTokens s = 0 \<and> currentFocus s = Some f \<and> chain T n f = Some vs
        \<and> getActions T f = pre @ a # post \<and> available a \<and> key a AND button \<noteq> 0
        \<and> (\<forall>x\<in>set pre. key x AND button = 0 \<or> \<not> available x) \<longrightarrow>
        (\<exists>s2 w2 fired2. onGamepadButtonPressed T button False s w = Some (s2, w2, fired2)
           \<and> fired2 \<noteq> [] \<and> fired_view (hd fired2) = f \<and> fired_action (hd fired2) = a))"
proof (intro conjI impI)
  assume "repetitionOldFocus s = currentFocus s"
  then show "onGamepadButtonPressed T button True s w = Some (s, w, [])"
    by (rule repeat_same_focus)
next
  assume h: "blockInputsTokens s = 0 \<and> \<not> (repeating \<and> repetitionOldFocus s = currentFocus s)
        \<and> onGamepadButtonPressed T button repeating s w = Some (s', w', fired)"
  then show r: "repetitionOldFocus s' = currentFocus s"
    using dispatch_records_focus [of s repeating T button w s' w' fired] by simp
  assume "currentFocus s' = currentFocus s"
  with r show "onGamepadButtonPressed T button' True s' w' = Some (s', w', [])"
    by (simp add: repeat_same_focus)
next
  assume "keysHeld d \<noteq> 0 \<and> BUTTON_REPEAT_DELAY < timer \<and> timer mod BUTTON_REPEAT_CADENCY = 0
        \<and> repetitionOldFocus s = currentFocus s"
  then show "mainLoop_gamepad T d timer s w = Some (s, w, [])"
    by (simp add: mainLoop_gamepad_def Let_def repeat_same_focus)
next
  assume "keysHeld d \<noteq> 0 \<and> keysDown d \<noteq> 0
        \<and> \<not> (BUTTON_REPEAT_DELAY < timer \<and> timer mod BUTTON_REPEAT_CADENCY = 0)"
  then show "mainLoop_gamepad T d timer s w = onGamepadButtonPressed T (keysHeld d) False s w"
    by (auto simp: mainLoop_gamepad_def Let_def)
next
  assume "keysDown d = 0
        \<and> \<not> (BUTTON_REPEAT_DELAY < timer \<and> timer mod BUTTON_REPEAT_CADENCY = 0)"
  then show "mainLoop_gamepad T d timer s w = Some (s, w, [])"
    by (auto simp: mainLoop_gamepad_def Let_def)
next
  assume h: "blockInputsTokens s = 0 \<and> currentFocus s = Some f \<and> chain T n f = Some vs
        \<and> getActions T f = pre @ a # post \<and> available a \<and> key a AND button \<noteq> 0
        \<and> (\<forall>x\<in>set pre. key x AND button = 0 \<or> \<not> available x)"
  then have "blockInputsTokens s = 0" "currentFocus s = Some f" "chain T n f = Some vs"
    "getActions T f = pre @ a # post" "available a" "key a AND button \<noteq> 0"
    "\<forall>x\<in>set pre. key x AND button = 0 \<or> \<not> available x"
    by simp_all
  from press_fires [OF this]
  show "\<exists>s2 w2 fired2. onGamepadButtonPressed T button False s w = Some (s2, w2, fired2)
           \<and> fired2 \<noteq> [] \<and> fired_view (hd fired2) = f \<and> fired_action (hd fired2) = a" .
qed

lemma eval_keys:
  "KEY_A AND KEY_A \<noteq> 0" "KEY_DDOWN AND KEY_DDOWN \<noteq> 0" "KEY_A AND KEY_DDOWN = 0"
  "KEY_DDOWN AND KEY_A = 0" "(KEY_A OR KEY_B) AND KEY_A \<noteq> 0" "KEY_A AND (KEY_A OR KEY_B) \<noteq> 0"
  "NOT KEY_A AND (KEY_A OR KEY_B) \<noteq> 0" "KEY_A OR KEY_B \<noteq> 0"
  "(KEY_A OR KEY_B) AND KEY_DDOWN = 0"
  by (simp_all add: KEY_A_def KEY_B_def KEY_DDOWN_def)

lemma chain_tree_nav: "chain tree_nav 2 2 = Some [2, 1]"
  by (simp add: tree_nav_def numeral_2_eq_2)

theorem repeat_suppressed_witness:
  "repetitionOldFocus app_rep = currentFocus app_rep
   \<and> onGamepadButtonPressed tree_nav KEY_A True app_rep [] = Some (app_rep, [], [])
   \<and> onGamepadButtonPressed tree_nav KEY_A False app_rep []
       = Some (app_rep, [''focus''], [(2, act ''focus'' True, True)])
   \<and> onGamepadButtonPressed tree_nav KEY_DDOWN True app_rep [] = Some (app_rep, [], [])
   \<and> blockInputsTokens app_rep = 0
   \<and> onGamepadButtonPressed tree_nav KEY_DDOWN False app_rep []
       = Some (app_rep\<lparr>currentFocus := Some 3,
                 calls := [OnFocusLost 2, FocusChangeEvent (Some 3), OnFocusGained 3]\<rparr>, [], [])
   \<and> keysHeld held_A \<noteq> 0 \<and> BUTTON_REPEAT_DELAY < 20 \<and> 20 mod BUTTON_REPEAT_CADENCY = 0
   \<and> mainLoop_gamepad tree_nav held_A 20 app_rep [] = Some (app_rep, [], [])
   \<and> keysDown press_B \<noteq> 0 \<and> keysHeld press_B \<noteq> 0
   \<and> mainLoop_gamepad tree_nav press_B 19 app_rep []
       = Some (app_rep, [''focus''], [(2, act ''focus'' True, True)])
   \<and> keysDown held_A = 0
   \<and> mainLoop_gamepad tree_nav held_A 19 app_rep [] = Some (app_rep, [], [])
   \<and> chain tree_nav 2 2 = Some [2, 1]"
  using chain_tree_nav
    repeat_suppressed [of app_rep tree_nav KEY_A "[]" False app_rep "[''focus'']"
      "[(2, act ''focus'' True, True)]" KEY_DDOWN held_A 20 2 2 "[2, 1]" "[]" "act ''focus'' True" "[]"]
    repeat_suppressed [of app_rep tree_nav KEY_DDOWN "[]" False app_rep "[''focus'']"
      "[(2, act ''focus'' True, True)]" KEY_DDOWN press_B 19 2 2 "[2, 1]" "[]" "act ''focus'' True" "[]"]
    repeat_suppressed [of app_rep tree_nav KEY_DDOWN "[]" False app_rep "[''focus'']"
      "[(2, act ''focus'' True, True)]" KEY_DDOWN held_A 19 2 2 "[2, 1]" "[]" "act ''focus'' True" "[]"]
  by (simp add: app_rep_def app_focus2_def app_init_def tree_nav_def act_def held_A_def
      press_B_def keysHeld_def keysDown_def BUTTON_REPEAT_DELAY_def BUTTON_REPEAT_CADENCY_def
      onGamepadButtonPressed_def mainLoop_gamepad_def handleAction_def navigate_def giveFocus_def
      emit_def Let_def eval_keys KEY_A_def KEY_B_def KEY_DDOWN_def KEY_DUP_def KEY_DLEFT_def
      KEY_DRIGHT_def)

text \<open>
  The claim as written fails on its last clause: with the A button held, the recorded
  focus equal to the current one, and the B button newly pressed off a repeat tick, the
  main loop dispatches the held mask and the listener of the action on A runs again.
\<close>

theorem repeat_suppressed_counterexample:
  "repetitionOldFocus app_rep = currentFocus app_rep
   \<and> gamepadDownOld press_B AND KEY_A \<noteq> 0 \<and> gamepadDown press_B AND KEY_A \<noteq> 0
   \<and> mainLoop_gamepad tree_nav press_B 19 app_rep []
       = Some (app_rep, [''focus''], [(2, act ''focus'' True, True)])"
  by (simp add: app_rep_def app_focus2_def app_init_def tree_nav_def act_def
      press_B_def keysHeld_def keysDown_def BUTTON_REPEAT_DELAY_def BUTTON_REPEAT_CADENCY_def
      onGamepadButtonPressed_def mainLoop_gamepad_def handleAction_def Let_def eval_keys
      KEY_A_def KEY_B_def)

subsection \<open>The frame-rate cap\<close>

lemma f60: "f32 60 = 60"
  by code_simp












end
